theory Spec2Isabelle
  imports Complex_Main
begin

section \<open>Errors\<close>

text \<open>
  Every way in which a stage of the notebooks can stop is a value.  \<open>KeyError\<close> and
  \<open>IndexError\<close> are the Python exceptions of a failed dictionary lookup and of a list index
  out of range.  \<open>ZeroDivision\<close> stands for a division whose divisor is zero being carried out.
  \<open>AlignmentError\<close> and \<open>RenormalizationError\<close> are the names of the specification's error
  taxonomy.
\<close>

datatype error =
    KeyError
  | IndexError
  | ZeroDivision
  | AlignmentError
  | RenormalizationError

section \<open>Reading the CoNLL file: \<open>readfile\<close>\<close>

text \<open>
  A Python string is a sequence of Unicode code points; here a code point is a natural number
  and a string of \<open>readfile\<close> a list of them.  \<open>str\<close> gives the code points of a string of
  ASCII characters written in the theory.
\<close>

type_synonym pystr = "nat list"

definition str :: "string \<Rightarrow> pystr" where
  "str s = map of_char s"

text \<open>
  \<open>str.isalpha\<close>, \<open>str.isupper\<close> and \<open>str.lower\<close> are methods of Python's built-in string type;
  they follow the Unicode character tables, which are no part of the notebook.  They are the
  parameters of the model: \<open>readfile\<close> is modelled for any three functions in their place.
\<close>

record str_methods =
  isalpha :: "pystr \<Rightarrow> bool"
  isupper :: "pystr \<Rightarrow> bool"
  lower :: "pystr \<Rightarrow> pystr"

text \<open>
  Lines 162-163 of the notebook:
  \<^verbatim>\<open>if len(word) > 0 and word[0].isalpha() and word.isupper():
      word = word[0] + word[1:].lower()\<close>
\<close>

definition cast_word :: "str_methods \<Rightarrow> pystr \<Rightarrow> pystr" where
  "cast_word U word =
     (case word of
        [] \<Rightarrow> word
      | c # cs \<Rightarrow> if isalpha U [c] \<and> isupper U word then [c] @ lower U cs else word)"

text \<open>\<open>line.split(sep)\<close> for a one-character separator: every occurrence splits, and empty
  fields are kept.  The result is never empty.\<close>

fun split_sep :: "nat \<Rightarrow> pystr \<Rightarrow> pystr list" where
  "split_sep sep [] = [[]]"
| "split_sep sep (c # cs) =
     (if c = sep then [] # split_sep sep cs
      else (case split_sep sep cs of
              [] \<Rightarrow> [[c]]
            | f # fs \<Rightarrow> (c # f) # fs))"

definition entities :: "pystr list" where
  "entities = map str [''O'', ''B-MISC'', ''I-MISC'', ''B-PER'', ''I-PER'', ''B-ORG'', ''I-ORG'',
                       ''B-LOC'', ''I-LOC'']"

text \<open>\<open>entity_map = {entity: i for i, entity in enumerate(entities)}\<close>\<close>

definition entity_map :: "pystr \<rightharpoonup> nat" where
  "entity_map = map_of (zip entities [0..<length entities])"

text \<open>The space and the line feed.\<close>

definition space :: nat where
  "space = 32"

definition newline :: nat where
  "newline = 10"

definition startswith :: "pystr \<Rightarrow> pystr \<Rightarrow> bool" where
  "startswith line p = (take (length p) line = p)"

text \<open>The test that ends a sentence:
  \<^verbatim>\<open>len(line) == 0 or line.startswith('-DOCSTART') or line[0] == '\n'\<close>\<close>

definition is_break :: "pystr \<Rightarrow> bool" where
  "is_break line =
     (case line of
        [] \<Rightarrow> True
      | c # cs \<Rightarrow> startswith line (str ''-DOCSTART'') \<or> c = newline)"

record read_state =
  data :: "(pystr list \<times> nat list) list"
  sentence :: "pystr list"
  label :: "nat list"

definition flush :: "read_state \<Rightarrow> read_state" where
  "flush st =
     (if length (sentence st) > 0
      then st\<lparr>data := data st @ [(sentence st, label st)], sentence := [], label := []\<rparr>
      else st)"

text \<open>One round of the loop over the lines of the file.\<close>

definition read_line :: "str_methods \<Rightarrow> nat \<Rightarrow> read_state \<Rightarrow> pystr \<Rightarrow> error + read_state" where
  "read_line U sep st line =
     (if is_break line then Inr (flush st)
      else
        let splits = split_sep sep line;
            word = cast_word U (hd splits)
        in (case entity_map (butlast (last splits)) of
              None \<Rightarrow> Inl KeyError
            | Some l \<Rightarrow> Inr (st\<lparr>sentence := sentence st @ [word], label := label st @ [l]\<rparr>)))"

fun read_lines :: "str_methods \<Rightarrow> nat \<Rightarrow> read_state \<Rightarrow> pystr list \<Rightarrow> error + read_state" where
  "read_lines U sep st [] = Inr st"
| "read_lines U sep st (line # lines) =
     (case read_line U sep st line of
        Inl e \<Rightarrow> Inl e
      | Inr st' \<Rightarrow> read_lines U sep st' lines)"

text \<open>\<open>readfile(filepath, sep=' ')\<close> on the lines of the file (each line with its line end, as
  Python's iteration over an open file yields them).\<close>

definition readfile_sep ::
  "str_methods \<Rightarrow> nat \<Rightarrow> pystr list \<Rightarrow> error + (pystr list list \<times> nat list list)" where
  "readfile_sep U sep lines =
     (case read_lines U sep \<lparr>data = [], sentence = [], label = []\<rparr> lines of
        Inl e \<Rightarrow> Inl e
      | Inr st \<Rightarrow> let d = data (flush st) in Inr (map fst d, map snd d))"

definition readfile :: "str_methods \<Rightarrow> pystr list \<Rightarrow> error + (pystr list list \<times> nat list list)" where
  "readfile U lines = readfile_sep U space lines"

text \<open>
  For worked examples only: what the three methods do on a string of ASCII characters.  On a
  string with another character these functions are not Python's methods, and nothing
  below is stated about them there; the property of \<open>readfile\<close> is proved for every value of
  the parameters.
\<close>

definition ascii_upper :: "nat \<Rightarrow> bool" where
  "ascii_upper n = (65 \<le> n \<and> n \<le> 90)"

definition ascii_lower :: "nat \<Rightarrow> bool" where
  "ascii_lower n = (97 \<le> n \<and> n \<le> 122)"

definition ascii_methods :: str_methods where
  "ascii_methods =
     \<lparr>isalpha = (\<lambda>s. s \<noteq> [] \<and> list_all (\<lambda>n. ascii_upper n \<or> ascii_lower n) s),
      isupper = (\<lambda>s. list_ex ascii_upper s \<and> list_all (\<lambda>n. \<not> ascii_lower n) s),
      lower = map (\<lambda>n. if ascii_upper n then n + 32 else n)\<rparr>"

section \<open>Token Aligner\<close>

type_synonym row = "rat list"

text \<open>The three characters the aligner is about: the double quote, the apostrophe and the
  backquote.\<close>

definition dquote :: string where
  "dquote = [CHR 0x22]"

definition apostrophe :: string where
  "apostrophe = [CHR 0x27]"

definition two_apostrophes :: string where
  "two_apostrophes = [CHR 0x27, CHR 0x27]"

definition two_backquotes :: string where
  "two_backquotes = [CHR 0x60, CHR 0x60]"

text \<open>\<open>p in s\<close> on Python strings.\<close>

fun contains :: "string \<Rightarrow> string \<Rightarrow> bool" where
  "contains p [] = (p = [])"
| "contains p (c # cs) = (take (length p) (c # cs) = p \<or> contains p cs)"

text \<open>
  Modelled from the spec: applying one (pattern, replacement) pair of the substitution table
  to a token, for \<open>process_token\<close> below, whose body is not part of the notebook.  Every
  occurrence of the pattern is replaced, scanning from the left; an empty pattern changes
  nothing.
\<close>

fun replace_all :: "string \<Rightarrow> string \<Rightarrow> string \<Rightarrow> string" where
  "replace_all p r [] = []"
| "replace_all p r (c # cs) =
     (if p \<noteq> [] \<and> take (length p) (c # cs) = p
      then r @ replace_all p r (drop (length p) (c # cs))
      else c # replace_all p r cs)"

text \<open>
  Modelled from the spec: \<open>process_token\<close> is imported by the notebook and its body is not
  part of the notebook.  The specification: "Given a substitution table of (pattern,
  replacement) string pairs, apply them to each subword token to recover original
  characters."  The pairs are applied in the order of the table.
\<close>

definition process_token :: "string \<Rightarrow> (string \<times> string) list \<Rightarrow> string" where
  "process_token token replace = fold (\<lambda>(p, r) t. replace_all p r t) replace token"

text \<open>The substitution table of line 470: the subword marker is deleted, two backquotes and
  two apostrophes each become one double quote.\<close>

definition replace_table :: "(string \<times> string) list" where
  "replace_table = [(''#'', []), (two_backquotes, dquote), (two_apostrophes, dquote)]"

text \<open>
  The inner loop of lines 477-484 over \<open>zip(sentence_tokens[i], sentence_probs[i])\<close>: a token
  other than the double quote is appended with its probability row; for a double-quote token
  an apostrophe token and the probability row are appended twice.
\<close>

fun split_quotes :: "(string \<times> 'p) list \<Rightarrow> (string \<times> 'p) list" where
  "split_quotes [] = []"
| "split_quotes ((token, prob) # rest) =
     (if token \<noteq> dquote then (token, prob) # split_quotes rest
      else (apostrophe, prob) # (apostrophe, prob) # split_quotes rest)"

text \<open>Lines 469-486 for one sentence: the substitution table is applied to every token; when
  the joined words contain two apostrophes in a row, the loop above rebuilds the tokens and
  the probability rows.  No branch of the source raises.\<close>

definition align_sentence ::
  "string list \<Rightarrow> string list \<Rightarrow> 'p list \<Rightarrow> string list \<times> 'p list" where
  "align_sentence given_words sentence_tokens sentence_probs =
     (let tokens = map (\<lambda>token. process_token token replace_table) sentence_tokens;
          short = concat given_words
      in if contains two_apostrophes short
         then (let processed = split_quotes (zip tokens sentence_probs)
               in (map fst processed, map snd processed))
         else (tokens, sentence_probs))"

section \<open>Class Remapper\<close>

text \<open>The first error of a list of results, or all the values.\<close>

fun collect :: "(error + 'a) list \<Rightarrow> error + 'a list" where
  "collect [] = Inr []"
| "collect (Inl e # rs) = Inl e"
| "collect (Inr x # rs) = (case collect rs of Inl e \<Rightarrow> Inl e | Inr xs \<Rightarrow> Inr (x # xs))"

text \<open>
  The class remapper \<open>merge_probs\<close> is imported by the notebook and its body is not part of
  the notebook; the notebook holds the call (line 510) and its description (lines 518-527).
  It is modelled from the specification, with rational numbers for the probabilities:
  rounding is not modelled.
\<close>

text \<open>Modelled from the spec: the number of columns of the output of \<open>merge_probs\<close>, "K =
  number of distinct non-negative values in the map".\<close>

definition num_coarse :: "int list \<Rightarrow> nat" where
  "num_coarse maps = length (remdups (filter (\<lambda>m. 0 \<le> m) maps))"

text \<open>Modelled from the spec: one entry of the output of \<open>merge_probs\<close> before any
  renormalization, "output column j = sum over all fine classes j' with map[j']==j of input
  column j'".\<close>

definition merge_entry :: "int list \<Rightarrow> row \<Rightarrow> nat \<Rightarrow> rat" where
  "merge_entry maps r j = sum_list (map fst (filter (\<lambda>(p, m). m = int j) (zip r maps)))"

text \<open>Modelled from the spec: one row of the output of \<open>merge_probs\<close> before any
  renormalization, the columns \<open>0\<close> to \<open>K - 1\<close>.\<close>

definition merge_row :: "int list \<Rightarrow> row \<Rightarrow> row" where
  "merge_row maps r = map (merge_entry maps r) [0..<num_coarse maps]"

text \<open>Modelled from the spec: the renormalization of a row of \<open>merge_probs\<close>, "divide by
  the row's post-drop sum".  For a row whose post-drop sum is zero the specification leaves
  the remapper undefined and makes the guard the caller's duty; the model carries the
  division out and reports that as \<open>ZeroDivision\<close>.\<close>

definition renormalize :: "row \<Rightarrow> error + row" where
  "renormalize r =
     (let s = sum_list r in if s = 0 then Inl ZeroDivision else Inr (map (\<lambda>x. x / s) r))"

text \<open>
  Modelled from the spec: \<open>merge_probs\<close>, whose body is not part of the notebook.  The
  specification: "given a probability matrix of shape (N tokens x L fine classes) and a
  class map of length L, produce a matrix of shape (N x K coarse classes) where K = number
  of distinct non-negative values in the map.  For each coarse class j, output column j =
  sum over all fine classes j' with map[j']==j of input column j'.  If any fine class maps
  to the negative sentinel, the corresponding probability mass is dropped and each output
  row must be renormalized to sum to 1 (divide by the row's post-drop sum)."
\<close>

definition merge_probs :: "row list \<Rightarrow> int list \<Rightarrow> error + row list" where
  "merge_probs probs maps =
     (let probs_merged = map (merge_row maps) probs
      in if list_ex (\<lambda>m. m < 0) maps then collect (map renormalize probs_merged)
         else Inr probs_merged)"

text \<open>\<open>model_maps = [-1, 0, 1, 1, 2, 2, 3, 3, 4, 4, -1, -1]\<close>\<close>

definition model_maps :: "int list" where
  "model_maps = [-1, 0, 1, 1, 2, 2, 3, 3, 4, 4, -1, -1]"

text \<open>Line 510, the caller:
  \<^verbatim>\<open>sentence_probs = [merge_probs(pred_prob, maps=model_maps) for pred_prob in sentence_probs]\<close>
  The imported function is the parameter \<open>merge\<close>.  Each matrix is handed to it as it is:
  there is no test before the call and none after it.  An exception of a call ends the
  comprehension.\<close>

definition merge_all ::
  "(row list \<Rightarrow> int list \<Rightarrow> error + row list) \<Rightarrow> int list \<Rightarrow> row list list \<Rightarrow>
     error + row list list" where
  "merge_all merge maps sentence_probs =
     collect (map (\<lambda>pred_prob. merge pred_prob maps) sentence_probs)"

section \<open>Subword Aggregator\<close>

text \<open>
  Modelled from the spec: the cursor of \<open>get_pred_probs\<close>.  \<open>get_pred_probs\<close> is defined in
  the module \<open>token_classification_tutorial_utils\<close>, which the notebook imports and which is
  not among the source files; the notebook holds the call (lines 614-615).  The
  specification: "walk
  both sequences using a character-offset cursor.  Maintain a cursor into the concatenated
  subword character stream.  For each original word, consume subword tokens whose character
  span falls within or overlaps the word's span in the shared character stream: a subword
  fully contained in one word contributes its whole probability vector to that word; a
  subword that spans the boundary between two words contributes its probability vector to
  both words it overlaps; a word assembled from multiple consumed subwords receives the
  unweighted arithmetic mean of their probability vectors (uniform averaging is the default;
  length-weighted averaging, weighting each contributing subword's vector by its character
  length, is a supported alternative policy)."

  The cursor is the list of subwords not yet left behind, each with its probability row, and
  the number \<open>j\<close> of characters of the first of them that earlier words have used.
  \<open>consume remain ts j\<close> gathers the subwords that cover the next \<open>remain\<close> characters; a
  subword that reaches beyond them stays at the front for the next word.  When the subwords
  end before the word does, there is no result.
\<close>

fun consume ::
  "nat \<Rightarrow> (string \<times> row) list \<Rightarrow> nat \<Rightarrow> ((string \<times> row) list \<times> (string \<times> row) list \<times> nat) option"
where
  "consume remain [] j = (if remain = 0 then Some ([], [], j) else None)"
| "consume remain ((t, p) # rest) j =
     (if remain = 0 then Some ([], (t, p) # rest, j)
      else if length t - j > remain then Some ([(t, p)], (t, p) # rest, j + remain)
      else (case consume (remain - (length t - j)) rest 0 of
              None \<Rightarrow> None
            | Some (cs, ts', j') \<Rightarrow> Some ((t, p) # cs, ts', j')))"

text \<open>Modelled from the spec: the two averaging policies of \<open>get_pred_probs\<close>, "uniform
  averaging is the default; length-weighted averaging [...] is a supported alternative
  policy, selectable via configuration".\<close>

datatype policy = Uniform | LengthWeighted

text \<open>Modelled from the spec: the elementwise sum of two probability vectors, for the mean
  that \<open>get_pred_probs\<close> takes.\<close>

definition vadd :: "row \<Rightarrow> row \<Rightarrow> row" where
  "vadd a b = map2 (+) a b"

text \<open>Modelled from the spec: the elementwise sum of the probability vectors of the
  subwords of a word, for the mean that \<open>get_pred_probs\<close> takes.\<close>

fun vsum :: "row list \<Rightarrow> row" where
  "vsum [] = []"
| "vsum [r] = r"
| "vsum (r # rs) = vadd r (vsum rs)"

text \<open>Modelled from the spec: a probability vector times a weight, for the length-weighted
  mean of \<open>get_pred_probs\<close>.\<close>

definition scale :: "rat \<Rightarrow> row \<Rightarrow> row" where
  "scale c r = map (\<lambda>x. c * x) r"

text \<open>Modelled from the spec: the weight of a contributing subword in \<open>get_pred_probs\<close>, one
  under the default policy, "its character length" under the alternative.\<close>

fun weight :: "policy \<Rightarrow> string \<Rightarrow> rat" where
  "weight Uniform t = 1"
| "weight LengthWeighted t = of_nat (length t)"

text \<open>Modelled from the spec: the mean that \<open>get_pred_probs\<close> takes of the contributing
  rows, "the unweighted arithmetic mean of their probability vectors" by default.  With no
  contributor, or with weights that add up to zero, the mean is a division by zero.\<close>

definition average :: "policy \<Rightarrow> (string \<times> row) list \<Rightarrow> error + row" where
  "average pol cs =
     (let total = sum_list (map (\<lambda>(t, p). weight pol t) cs)
      in if total = 0 then Inl ZeroDivision
         else Inr (map (\<lambda>x. x / total) (vsum (map (\<lambda>(t, p). scale (weight pol t) p) cs))))"

text \<open>Modelled from the spec: the loop of \<open>get_pred_probs\<close> over the words, "for each
  original word, consume subword tokens [...]".  Subwords that end before the words do
  cannot be reconciled with them: the specification's \<open>AlignmentError\<close>.\<close>

fun walk :: "policy \<Rightarrow> string list \<Rightarrow> (string \<times> row) list \<Rightarrow> nat \<Rightarrow> error + row list" where
  "walk pol [] ts j = Inr []"
| "walk pol (w # ws) ts j =
     (case consume (length w) ts j of
        None \<Rightarrow> Inl AlignmentError
      | Some (cs, ts', j') \<Rightarrow>
          (case average pol cs of
             Inl e \<Rightarrow> Inl e
           | Inr probs \<Rightarrow>
               (case walk pol ws ts' j' of
                  Inl e \<Rightarrow> Inl e
                | Inr pred_probs \<Rightarrow> Inr (probs # pred_probs))))"

text \<open>Modelled from the spec: \<open>get_pred_probs\<close> with its policy, on "(a) the per-sentence
  coarse probability matrix indexed by subword position, (b) the list of subword token
  strings (post-alignment), (c) the list of original words".\<close>

definition get_pred_probs_policy ::
  "policy \<Rightarrow> row list \<Rightarrow> string list \<Rightarrow> string list \<Rightarrow> error + row list" where
  "get_pred_probs_policy pol scores tokens given_words = walk pol given_words (zip tokens scores) 0"

text \<open>Modelled from the spec: \<open>get_pred_probs\<close> as lines 614-615 call it.  The call names
  no policy: it is the default one.\<close>

definition get_pred_probs :: "row list \<Rightarrow> string list \<Rightarrow> string list \<Rightarrow> error + row list" where
  "get_pred_probs scores tokens given_words = get_pred_probs_policy Uniform scores tokens given_words"

section \<open>K-fold partitioning\<close>

text \<open>
  The object-detection notebook's \<open>split_data\<close>.  A data set is its images and its
  annotations (the metadata copied into both halves is left out).  \<open>stem\<close> stands for
  \<^verbatim>\<open>int(image['file_name'].split('.')[0])\<close>, the number the notebook takes for the image's
  identifier ("Get unique image IDs"), and \<open>image_id\<close> for \<^verbatim>\<open>annotation['image_id']\<close>.
\<close>

record ('img, 'ann) coco =
  images :: "'img list"
  annotations :: "'ann list"

text \<open>\<open>[image_ids[i] for i in indices]\<close>: an index beyond the list raises.\<close>

definition ids_at :: "int list \<Rightarrow> nat list \<Rightarrow> error + int list" where
  "ids_at image_ids indices =
     (if list_all (\<lambda>i. i < length image_ids) indices
      then Inr (map (\<lambda>i. image_ids ! i) indices) else Inl IndexError)"

definition split_data ::
  "('img \<Rightarrow> int) \<Rightarrow> ('ann \<Rightarrow> int) \<Rightarrow> ('img, 'ann) coco \<Rightarrow> nat list \<Rightarrow> nat list \<Rightarrow>
     error + (('img, 'ann) coco \<times> ('img, 'ann) coco)" where
  "split_data stem image_id dat train_indices test_indices =
     (let image_ids = map stem (images dat)
      in (case ids_at image_ids train_indices of
            Inl e \<Rightarrow> Inl e
          | Inr train_image_ids \<Rightarrow>
              (case ids_at image_ids test_indices of
                 Inl e \<Rightarrow> Inl e
               | Inr test_image_ids \<Rightarrow>
                   Inr (\<lparr>images = filter (\<lambda>image. stem image \<in> set train_image_ids) (images dat),
                         annotations = filter (\<lambda>a. image_id a \<in> set train_image_ids) (annotations dat)\<rparr>,
                        \<lparr>images = filter (\<lambda>image. stem image \<notin> set train_image_ids) (images dat),
                         annotations = filter (\<lambda>a. image_id a \<notin> set train_image_ids) (annotations dat)\<rparr>))))"

text \<open>
  The loop over \<open>kf.split(image_ids)\<close>: the training and the test data of every fold.
  \<open>KFold\<close> is imported; what \<open>kf.split\<close> yields, one pair of training and test indices for
  each fold, is the parameter \<open>folds\<close>.
\<close>

definition split_folds ::
  "('img \<Rightarrow> int) \<Rightarrow> ('ann \<Rightarrow> int) \<Rightarrow> ('img, 'ann) coco \<Rightarrow> (nat list \<times> nat list) list \<Rightarrow>
     (error + (('img, 'ann) coco \<times> ('img, 'ann) coco)) list" where
  "split_folds stem image_id dat folds =
     map (\<lambda>(train_indices, test_indices). split_data stem image_id dat train_indices test_indices)
         folds"

section \<open>Formatting the detector's predictions\<close>

text \<open>
  One predicted instance: its box (a row of the N x 4 tensor of boxes), its score and its
  class.  The values are of a type \<open>'a\<close>; the conversion to 32-bit floats is a function
  \<open>cast\<close> that the model does not look into.
\<close>

record 'a detection =
  pred_box :: "'a \<times> 'a \<times> 'a \<times> 'a"
  pred_score :: 'a
  pred_class :: int

text \<open>An array is its shape and its rows.\<close>

record 'b ndarray =
  shape :: "nat \<times> nat"
  entries :: "'b list list"

text \<open>Python's list index: a negative index counts from the end, any other index outside
  the list raises.\<close>

definition py_index :: "nat \<Rightarrow> int \<Rightarrow> nat option" where
  "py_index n i =
     (if 0 \<le> i \<and> i < int n then Some (nat i)
      else if - int n \<le> i \<and> i < 0 then Some (nat (i + int n))
      else None)"

text \<open>\<^verbatim>\<open>box_coordinates = list(boxes[i]); box_coordinates.append(scores)\<close>\<close>

definition box_coordinates :: "'a detection \<Rightarrow> 'a list" where
  "box_coordinates d = (case pred_box d of (x1, y1, x2, y2) \<Rightarrow> [x1, y1, x2, y2] @ [pred_score d])"

text \<open>The first loop: \<open>results[pred_class].append(box_coordinates)\<close> for every instance.\<close>

fun place :: "'a list list list \<Rightarrow> 'a detection list \<Rightarrow> error + 'a list list list" where
  "place results [] = Inr results"
| "place results (d # ds) =
     (case py_index (length results) (pred_class d) of
        None \<Rightarrow> Inl IndexError
      | Some c \<Rightarrow> place (results[c := results ! c @ [box_coordinates d]]) ds)"

text \<open>The second loop's body: an empty list becomes an array of shape \<open>(0, num_classes)\<close>, any
  other list the array of its rows.\<close>

definition format_array :: "('a \<Rightarrow> 'b) \<Rightarrow> nat \<Rightarrow> 'a list list \<Rightarrow> 'b ndarray" where
  "format_array cast num_classes i =
     (if length i = 0 then \<lparr>shape = (0, num_classes), entries = []\<rparr>
      else \<lparr>shape = (length i, length (hd i)), entries = map (map cast) i\<rparr>)"

definition format_detectron2_predictions ::
  "('a \<Rightarrow> 'b) \<Rightarrow> 'a detection list \<Rightarrow> nat \<Rightarrow> error + 'b ndarray list" where
  "format_detectron2_predictions cast instances num_classes =
     (case place (replicate num_classes []) instances of
        Inl e \<Rightarrow> Inl e
      | Inr results \<Rightarrow> Inr (map (format_array cast num_classes) results))"

section \<open>The aggregator's contract, by character spans\<close>

text \<open>
  The specification states the contract of the subword aggregator by character spans: the
  output for a word is the average of "the probability vectors of all subwords whose
  character span overlaps that word".
\<close>

text \<open>Modelled from the spec: the character spans of the items of a sequence of strings, for
  the contract of \<open>get_pred_probs\<close>.  The span of an item is the half-open interval of the
  positions of its characters in the concatenation.\<close>

fun spans_from :: "nat \<Rightarrow> string list \<Rightarrow> (nat \<times> nat) list" where
  "spans_from start [] = []"
| "spans_from start (x # xs) = (start, start + length x) # spans_from (start + length x) xs"

text \<open>Modelled from the spec: two character spans overlap, for the contract of
  \<open>get_pred_probs\<close>.\<close>

definition overlaps :: "nat \<times> nat \<Rightarrow> nat \<times> nat \<Rightarrow> bool" where
  "overlaps a b = (fst a < snd b \<and> fst b < snd a)"

text \<open>Modelled from the spec: the subwords, each with its row, "whose character span
  overlaps" the span \<open>w\<close>, for the contract of \<open>get_pred_probs\<close>; the first subword begins at
  position \<open>start\<close>.\<close>

definition overlapping_from ::
  "nat \<Rightarrow> (string \<times> row) list \<Rightarrow> nat \<times> nat \<Rightarrow> (string \<times> row) list" where
  "overlapping_from start ts w =
     map snd (filter (\<lambda>(s, x). overlaps s w) (zip (spans_from start (map fst ts)) ts))"

text \<open>Modelled from the spec: the subwords of a sentence whose character span overlaps the
  span \<open>w\<close>, each with its row of the matrix, for the contract of \<open>get_pred_probs\<close>.\<close>

definition overlapping :: "row list \<Rightarrow> string list \<Rightarrow> nat \<times> nat \<Rightarrow> (string \<times> row) list" where
  "overlapping scores tokens w = overlapping_from 0 (zip tokens scores) w"

text \<open>Modelled from the spec: the number of characters of a list of subwords, the length of
  "the concatenated subword character stream" of \<open>get_pred_probs\<close>.\<close>

definition chars :: "(string \<times> row) list \<Rightarrow> nat" where
  "chars ts = sum_list (map (\<lambda>(t, p). length t) ts)"

section \<open>Properties of \<open>readfile\<close>\<close>

lemma cast_word_eq:
  "cast_word U word =
     (if word \<noteq> [] \<and> isalpha U [hd word] \<and> isupper U word
      then hd word # lower U (tl word) else word)"
  by (cases word) (simp_all add: cast_word_def)

lemma flush_words:
  "concat (map fst (data (flush st))) @ sentence (flush st) = concat (map fst (data st)) @ sentence st"
  by (simp add: flush_def)

lemma read_line_words:
  assumes "read_line U sep st line = Inr st'"
  shows "concat (map fst (data st')) @ sentence st' =
         concat (map fst (data st)) @ sentence st @
           (if is_break line then [] else [cast_word U (hd (split_sep sep line))])"
proof (cases "is_break line")
  case True
  with assms have "st' = flush st" by (simp add: read_line_def)
  with True show ?thesis by (simp add: flush_words)
next
  case False
  with assms show ?thesis
    by (auto simp: read_line_def Let_def split: option.splits)
qed

lemma read_lines_words:
  "read_lines U sep st lines = Inr st' \<Longrightarrow>
   concat (map fst (data st')) @ sentence st' =
     concat (map fst (data st)) @ sentence st @
       map (\<lambda>line. cast_word U (hd (split_sep sep line))) (filter (\<lambda>line. \<not> is_break line) lines)"
proof (induction lines arbitrary: st)
  case Nil
  then show ?case by simp
next
  case (Cons line lines)
  from Cons.prems obtain st1 where s1: "read_line U sep st line = Inr st1"
    and s2: "read_lines U sep st1 lines = Inr st'"
    by (auto split: sum.splits)
  from Cons.IH [OF s2] read_line_words [OF s1] show ?case by simp
qed

text \<open>
  Claim C9.  Whatever Python's \<open>str.isalpha\<close>, \<open>str.isupper\<close> and \<open>str.lower\<close> are (the
  parameter \<open>U\<close>): whenever \<open>readfile\<close> returns, the words it stores, sentence after sentence,
  are the first fields of the lines that are not sentence breaks, in order, each changed as
  follows.  A word that is not empty, whose first character \<open>isalpha\<close> holds of and which
  \<open>isupper\<close> holds of keeps its first character and has \<open>lower\<close> applied to the rest; every
  other word is stored as it is.  With \<open>J\<close> alphabetic, \<open>JAPAN\<close> uppercase and \<open>apan\<close> the
  lowercase of \<open>APAN\<close>, as they are in Python, the word \<open>JAPAN\<close> is stored as \<open>Japan\<close>, so the
  stored words can differ from the characters of the file.
\<close>

theorem readfile_casts_words:
  assumes "readfile U lines = Inr (given_words, given_labels)"
  shows "concat given_words =
           map (\<lambda>line. let word = hd (split_sep space line)
                       in if word \<noteq> [] \<and> isalpha U [hd word] \<and> isupper U word
                          then hd word # lower U (tl word) else word)
               (filter (\<lambda>line. \<not> is_break line) lines) \<and>
         (isalpha U (str ''J'') \<and> isupper U (str ''JAPAN'') \<and> lower U (str ''APAN'') = str ''apan''
            \<longrightarrow> cast_word U (str ''JAPAN'') = str ''Japan'')"
proof -
  from assms obtain st
    where st: "read_lines U space \<lparr>data = [], sentence = [], label = []\<rparr> lines = Inr st"
      and gw: "given_words = map fst (data (flush st))"
    by (auto simp: readfile_def readfile_sep_def Let_def split: sum.splits)
  have "concat given_words = concat (map fst (data (flush st))) @ sentence (flush st)"
    by (simp add: gw flush_def)
  also have "\<dots> = concat (map fst (data st)) @ sentence st"
    by (rule flush_words)
  also have "\<dots> = map (\<lambda>line. cast_word U (hd (split_sep space line)))
                       (filter (\<lambda>line. \<not> is_break line) lines)"
    using read_lines_words [OF st] by simp
  finally have a: "concat given_words =
           map (\<lambda>line. let word = hd (split_sep space line)
                       in if word \<noteq> [] \<and> isalpha U [hd word] \<and> isupper U word
                          then hd word # lower U (tl word) else word)
               (filter (\<lambda>line. \<not> is_break line) lines)"
    by (simp add: cast_word_eq Let_def)
  have b: "isalpha U (str ''J'') \<and> isupper U (str ''JAPAN'') \<and> lower U (str ''APAN'') = str ''apan''
            \<longrightarrow> cast_word U (str ''JAPAN'') = str ''Japan''"
    by (simp add: cast_word_def str_def)
  from a b show ?thesis by (rule conjI)
qed

theorem readfile_casts_words_witness:
  "readfile ascii_methods
       [str ''JAPAN NNP B-NP B-LOC\<newline>'', str ''lamb NN I-NP O\<newline>'', str ''\<newline>'']
     = Inr ([[str ''Japan'', str ''lamb'']], [[7, 0]]) \<and>
   concat [[str ''Japan'', str ''lamb'']] =
     map (\<lambda>line. let word = hd (split_sep space line)
                 in if word \<noteq> [] \<and> isalpha ascii_methods [hd word] \<and> isupper ascii_methods word
                    then hd word # lower ascii_methods (tl word) else word)
         (filter (\<lambda>line. \<not> is_break line)
            [str ''JAPAN NNP B-NP B-LOC\<newline>'', str ''lamb NN I-NP O\<newline>'', str ''\<newline>'']) \<and>
   cast_word ascii_methods (str ''JAPAN'') = str ''Japan''"
proof -
  have h: "readfile ascii_methods
       [str ''JAPAN NNP B-NP B-LOC\<newline>'', str ''lamb NN I-NP O\<newline>'', str ''\<newline>'']
     = Inr ([[str ''Japan'', str ''lamb'']], [[7, 0]])"
    by code_simp
  have j: "isalpha ascii_methods (str ''J'') \<and> isupper ascii_methods (str ''JAPAN'') \<and>
           lower ascii_methods (str ''APAN'') = str ''apan''"
    by code_simp
  note t = readfile_casts_words [OF h]
  from t have a: "concat [[str ''Japan'', str ''lamb'']] =
     map (\<lambda>line. let word = hd (split_sep space line)
                 in if word \<noteq> [] \<and> isalpha ascii_methods [hd word] \<and> isupper ascii_methods word
                    then hd word # lower ascii_methods (tl word) else word)
         (filter (\<lambda>line. \<not> is_break line)
            [str ''JAPAN NNP B-NP B-LOC\<newline>'', str ''lamb NN I-NP O\<newline>'', str ''\<newline>''])"
    by (rule conjunct1)
  from t j have b: "cast_word ascii_methods (str ''JAPAN'') = str ''Japan''"
    by (rule conjunct2 [THEN mp])
  show ?thesis using h a b by (intro conjI) assumption+
qed

section \<open>Properties of \<open>format_detectron2_predictions\<close>\<close>

lemma length_box_coordinates: "length (box_coordinates d) = 5"
  by (simp add: box_coordinates_def split: prod.splits)

lemma place_in_range:
  assumes "\<forall>d\<in>set ds. 0 \<le> pred_class d \<and> pred_class d < int (length results)"
  shows "\<exists>res. place results ds = Inr res \<and> length res = length results \<and>
           (\<forall>j<length results.
              res ! j = results ! j @ map box_coordinates (filter (\<lambda>d. pred_class d = int j) ds))"
  using assms
proof (induction ds arbitrary: results)
  case Nil
  then show ?case by simp
next
  case (Cons d ds)
  define c where "c = nat (pred_class d)"
  from Cons.prems have c: "pred_class d = int c" "c < length results"
    by (auto simp: c_def)
  define results' where "results' = results[c := results ! c @ [box_coordinates d]]"
  have len: "length results' = length results"
    by (simp add: results'_def)
  from c have step: "place results (d # ds) = place results' ds"
    by (simp add: py_index_def results'_def)
  from Cons.prems have "\<forall>d\<in>set ds. 0 \<le> pred_class d \<and> pred_class d < int (length results')"
    by (simp add: len)
  from Cons.IH [OF this] obtain res where res: "place results' ds = Inr res"
    "length res = length results'"
    "\<forall>j<length results'.
       res ! j = results' ! j @ map box_coordinates (filter (\<lambda>d. pred_class d = int j) ds)"
    by blast
  have "res ! j = results ! j @ map box_coordinates (filter (\<lambda>d. pred_class d = int j) (d # ds))"
    if j: "j < length results" for j
  proof (cases "j = c")
    case True
    with res(3) j len c show ?thesis by (simp add: results'_def)
  next
    case False
    with res(3) j len c show ?thesis by (simp add: results'_def)
  qed
  with res(1,2) step len show ?case by simp
qed

text \<open>
  Claim C10.  When every predicted class is a class index below \<open>num_classes\<close>,
  \<open>format_detectron2_predictions\<close> returns a list of exactly \<open>num_classes\<close> arrays, one for each
  class index in order.  The array of a class with predicted instances has one row for each
  of them, in their order: the four box coordinates followed by the score, all cast, five
  values in a row.  The array of a class with no predicted instance has no row and the shape
  \<open>(0, num_classes)\<close>, not \<open>(0, 5)\<close>.
\<close>

theorem format_detectron2_predictions_per_class:
  assumes "\<forall>d\<in>set instances. 0 \<le> pred_class d \<and> pred_class d < int num_classes"
  shows "\<exists>arrs. format_detectron2_predictions cast instances num_classes = Inr arrs \<and>
           length arrs = num_classes \<and>
           (\<forall>j<num_classes.
              arrs ! j =
                (let mine = filter (\<lambda>d. pred_class d = int j) instances
                 in if mine = [] then \<lparr>shape = (0, num_classes), entries = []\<rparr>
                    else \<lparr>shape = (length mine, 5),
                          entries = map (\<lambda>d. case pred_box d of (x1, y1, x2, y2) \<Rightarrow>
                                      [cast x1, cast y1, cast x2, cast y2, cast (pred_score d)]) mine\<rparr>))"
proof -
  from assms have "\<forall>d\<in>set instances.
      0 \<le> pred_class d \<and> pred_class d < int (length (replicate num_classes ([] :: 'a list list)))"
    by simp
  from place_in_range [OF this] obtain res
    where res: "place (replicate num_classes []) instances = Inr res"
      "length res = num_classes"
      "\<forall>j<num_classes. res ! j = map box_coordinates (filter (\<lambda>d. pred_class d = int j) instances)"
    by auto
  have "map (format_array cast num_classes) res ! j =
          (let mine = filter (\<lambda>d. pred_class d = int j) instances
           in if mine = [] then \<lparr>shape = (0, num_classes), entries = []\<rparr>
              else \<lparr>shape = (length mine, 5),
                    entries = map (\<lambda>d. case pred_box d of (x1, y1, x2, y2) \<Rightarrow>
                                [cast x1, cast y1, cast x2, cast y2, cast (pred_score d)]) mine\<rparr>)"
    if j: "j < num_classes" for j
  proof -
    define mine where "mine = filter (\<lambda>d. pred_class d = int j) instances"
    from res(3) j have rj: "res ! j = map box_coordinates mine"
      by (simp add: mine_def)
    have rows: "map (map cast) (map box_coordinates mine) =
                  map (\<lambda>d. case pred_box d of (x1, y1, x2, y2) \<Rightarrow>
                     [cast x1, cast y1, cast x2, cast y2, cast (pred_score d)]) mine"
      by (simp add: box_coordinates_def split: prod.splits)
    have "format_array cast num_classes (map box_coordinates mine) =
            (if mine = [] then \<lparr>shape = (0, num_classes), entries = []\<rparr>
             else \<lparr>shape = (length mine, 5),
                   entries = map (\<lambda>d. case pred_box d of (x1, y1, x2, y2) \<Rightarrow>
                               [cast x1, cast y1, cast x2, cast y2, cast (pred_score d)]) mine\<rparr>)"
    proof (cases mine)
      case Nil
      then show ?thesis by (simp add: format_array_def)
    next
      case (Cons d ds)
      have "length (hd (map box_coordinates mine)) = 5"
        by (simp add: Cons length_box_coordinates)
      with rows Cons show ?thesis
        by (simp add: format_array_def)
    qed
    with rj j res(2) show ?thesis
      by (simp add: mine_def Let_def)
  qed
  with res(1,2) show ?thesis
    by (simp add: format_detectron2_predictions_def)
qed

theorem format_detectron2_predictions_per_class_witness:
  "\<exists>arrs. format_detectron2_predictions (\<lambda>x::rat. x)
            [\<lparr>pred_box = (1, 2, 3, 4), pred_score = 1 / 2, pred_class = 1\<rparr>,
             \<lparr>pred_box = (5, 6, 7, 8), pred_score = 1 / 4, pred_class = 1\<rparr>] 3 = Inr arrs \<and>
          length arrs = 3 \<and>
          arrs ! 0 = \<lparr>shape = (0, 3), entries = []\<rparr> \<and>
          arrs ! 1 = \<lparr>shape = (2, 5), entries = [[1, 2, 3, 4, 1 / 2], [5, 6, 7, 8, 1 / 4]]\<rparr> \<and>
          arrs ! 2 = \<lparr>shape = (0, 3), entries = []\<rparr>"
proof -
  let ?ds = "[\<lparr>pred_box = (1, 2, 3, 4), pred_score = 1 / 2, pred_class = 1\<rparr>,
              \<lparr>pred_box = (5, 6, 7, 8), pred_score = 1 / 4, pred_class = 1\<rparr>] :: rat detection list"
  have h: "\<forall>d\<in>set ?ds. 0 \<le> pred_class d \<and> pred_class d < int 3"
    by simp
  from format_detectron2_predictions_per_class [OF h, of "\<lambda>x. x"] obtain arrs
    where a: "format_detectron2_predictions (\<lambda>x. x) ?ds 3 = Inr arrs" "length arrs = 3"
      and b: "\<forall>j<3. arrs ! j =
                (let mine = filter (\<lambda>d. pred_class d = int j) ?ds
                 in if mine = [] then \<lparr>shape = (0, 3), entries = []\<rparr>
                    else \<lparr>shape = (length mine, 5),
                          entries = map (\<lambda>d. case pred_box d of (x1, y1, x2, y2) \<Rightarrow>
                                      [x1, y1, x2, y2, pred_score d]) mine\<rparr>)"
    by blast
  from b [rule_format, of 0] have b0: "arrs ! 0 = \<lparr>shape = (0, 3), entries = []\<rparr>"
    by simp
  from b [rule_format, of 1]
  have b1: "arrs ! 1 = \<lparr>shape = (2, 5), entries = [[1, 2, 3, 4, 1 / 2], [5, 6, 7, 8, 1 / 4]]\<rparr>"
    by simp
  from b [rule_format, of 2] have b2: "arrs ! 2 = \<lparr>shape = (0, 3), entries = []\<rparr>"
    by simp
  from a b0 b1 b2 show ?thesis by blast
qed

section \<open>Properties of the Token Aligner\<close>

lemma split_quotes_append: "split_quotes (xs @ ys) = split_quotes xs @ split_quotes ys"
  by (induction xs rule: split_quotes.induct) simp_all

lemma split_quotes_no_quote: "dquote \<notin> fst ` set xs \<Longrightarrow> split_quotes xs = xs"
  by (induction xs rule: split_quotes.induct) auto

text \<open>In a sentence with exactly one double-quote token, exactly that token is replaced.\<close>

lemma align_sentence_single_quote:
  assumes "contains two_apostrophes (concat given_words)"
    and "zip (map (\<lambda>token. process_token token replace_table) sentence_tokens) sentence_probs =
           pre @ [(dquote, p)] @ post"
    and "dquote \<notin> fst ` set pre" and "dquote \<notin> fst ` set post"
  shows "align_sentence given_words sentence_tokens sentence_probs =
           (map fst pre @ [apostrophe, apostrophe] @ map fst post,
            map snd pre @ [p, p] @ map snd post)"
  using assms
  by (simp add: align_sentence_def Let_def split_quotes_append split_quotes_no_quote)

text \<open>
  Claim C4.  The words of the sentence are a double quote, \<open>a\<close> and two apostrophes; the
  tokenizer's tokens are two backquotes, \<open>a\<close> and two apostrophes, and the substitutions make
  a double quote of the first and of the last.  Only the last token stands for two apostrophes
  of the text.  The aligner splits the first token as well, since its test is on the sentence
  and not on the token: it returns five tokens whose characters are not those of the words,
  where the claim has the double quote, \<open>a\<close> and two apostrophe tokens.
\<close>

theorem quote_split_mixed_sentence:
  "contains two_apostrophes (concat [dquote, ''a'', two_apostrophes]) \<and>
   map (\<lambda>token. process_token token replace_table) [two_backquotes, ''a'', two_apostrophes] =
     [dquote, ''a'', dquote] \<and>
   align_sentence [dquote, ''a'', two_apostrophes] [two_backquotes, ''a'', two_apostrophes]
       [[1 :: rat], [2], [3]] =
     ([apostrophe, apostrophe, ''a'', apostrophe, apostrophe], [[1], [1], [2], [3], [3]]) \<and>
   align_sentence [dquote, ''a'', two_apostrophes] [two_backquotes, ''a'', two_apostrophes]
       [[1 :: rat], [2], [3]] \<noteq>
     ([dquote, ''a'', apostrophe, apostrophe], [[1], [2], [3], [3]]) \<and>
   concat [apostrophe, apostrophe, ''a'', apostrophe, apostrophe] \<noteq>
     concat [dquote, ''a'', two_apostrophes]"
  by (simp add: align_sentence_def process_token_def replace_table_def two_apostrophes_def
        two_backquotes_def dquote_def apostrophe_def)

text \<open>
  Claim C3, as amended.  The aligner compares no characters and raises nothing: what it
  returns depends on the words only through whether the joined words contain two
  apostrophes in a row.  For a sentence whose joined words do not, it returns the substituted
  tokens and the probability rows as they are, so that the characters of the returned tokens
  are those of the words exactly when the substituted tokens already spell the words.
\<close>

theorem align_sentence_no_comparison:
  "(contains two_apostrophes (concat given_words) = contains two_apostrophes (concat other_words)
      \<longrightarrow> align_sentence given_words sentence_tokens sentence_probs =
          align_sentence other_words sentence_tokens sentence_probs) \<and>
   (\<not> contains two_apostrophes (concat given_words) \<longrightarrow>
      align_sentence given_words sentence_tokens sentence_probs =
        (map (\<lambda>token. process_token token replace_table) sentence_tokens, sentence_probs) \<and>
      (concat (fst (align_sentence given_words sentence_tokens sentence_probs)) = concat given_words
         \<longleftrightarrow> concat (map (\<lambda>token. process_token token replace_table) sentence_tokens) =
             concat given_words))"
  by (simp add: align_sentence_def Let_def)

theorem align_sentence_no_comparison_witness:
  "\<not> contains two_apostrophes (concat [''a'', ''@'']) \<and>
   contains two_apostrophes (concat [''a'', ''@'']) = contains two_apostrophes (concat [''b'']) \<and>
   align_sentence [''a'', ''@''] [''a'', ''[UNK]''] [[1 / 4, 3 / 4], [1 / 2, 1 / 2 :: rat]] =
     align_sentence [''b''] [''a'', ''[UNK]''] [[1 / 4, 3 / 4], [1 / 2, 1 / 2]] \<and>
   align_sentence [''a'', ''@''] [''a'', ''[UNK]''] [[1 / 4, 3 / 4], [1 / 2, 1 / 2 :: rat]] =
     (map (\<lambda>token. process_token token replace_table) [''a'', ''[UNK]''],
      [[1 / 4, 3 / 4], [1 / 2, 1 / 2]])"
proof -
  have h1: "\<not> contains two_apostrophes (concat [''a'', ''@''])"
    by (simp add: two_apostrophes_def)
  have h2: "contains two_apostrophes (concat [''a'', ''@'']) =
            contains two_apostrophes (concat [''b''])"
    by (simp add: two_apostrophes_def)
  note t = align_sentence_no_comparison [of "[''a'', ''@'']" "[''b'']" "[''a'', ''[UNK]'']"
      "[[1 / 4, 3 / 4], [1 / 2, 1 / 2 :: rat]]"]
  from t h2 have a: "align_sentence [''a'', ''@''] [''a'', ''[UNK]''] [[1 / 4, 3 / 4], [1 / 2, 1 / 2 :: rat]] =
     align_sentence [''b''] [''a'', ''[UNK]''] [[1 / 4, 3 / 4], [1 / 2, 1 / 2]]"
    by (rule conjunct1 [THEN mp])
  from t h1 have "align_sentence [''a'', ''@''] [''a'', ''[UNK]''] [[1 / 4, 3 / 4], [1 / 2, 1 / 2 :: rat]] =
     (map (\<lambda>token. process_token token replace_table) [''a'', ''[UNK]''],
      [[1 / 4, 3 / 4], [1 / 2, 1 / 2]]) \<and>
      (concat (fst (align_sentence [''a'', ''@''] [''a'', ''[UNK]''] [[1 / 4, 3 / 4], [1 / 2, 1 / 2 :: rat]])) =
         concat [''a'', ''@'']
         \<longleftrightarrow> concat (map (\<lambda>token. process_token token replace_table) [''a'', ''[UNK]'']) =
             concat [''a'', ''@''])"
    by (rule conjunct2 [THEN mp])
  then have b: "align_sentence [''a'', ''@''] [''a'', ''[UNK]''] [[1 / 4, 3 / 4], [1 / 2, 1 / 2 :: rat]] =
     (map (\<lambda>token. process_token token replace_table) [''a'', ''[UNK]''],
      [[1 / 4, 3 / 4], [1 / 2, 1 / 2]])"
    by (rule conjunct1)
  show ?thesis using h1 h2 a b by (intro conjI) assumption+
qed

text \<open>
  Claim C3 as stated fails.  The tokenizer has no subword for the word \<open>@\<close> and gives the
  token \<open>[UNK]\<close>; the substitutions leave it as it is.  The aligner returns the tokens and the
  probability rows as they are, although the characters of the tokens are not those of the
  words.
\<close>

theorem alignment_error_counterexample:
  "align_sentence [''a'', ''@''] [''a'', ''[UNK]''] [[1 / 4, 3 / 4], [1 / 2, 1 / 2 :: rat]] =
     ([''a'', ''[UNK]''], [[1 / 4, 3 / 4], [1 / 2, 1 / 2]]) \<and>
   concat [''a'', ''[UNK]''] \<noteq> concat [''a'', ''@'']"
  by (simp add: align_sentence_def process_token_def replace_table_def two_apostrophes_def
        two_backquotes_def dquote_def)

section \<open>Properties of the Class Remapper\<close>

lemma collect_map_Inr: "collect (map Inr ys) = Inr ys"
  by (induction ys) simp_all

lemma collect_Inr_D: "collect xs = Inr ys \<Longrightarrow> xs = map Inr ys"
proof (induction xs arbitrary: ys)
  case Nil
  then show ?case by simp
next
  case (Cons a xs)
  then show ?case
    by (cases a) (auto split: sum.splits)
qed

lemma collect_Inl_mem: "collect xs = Inl e \<Longrightarrow> Inl e \<in> set xs"
  by (induction xs rule: collect.induct) (auto split: sum.splits)

lemma collect_mem_Inl: "Inl e \<in> set xs \<Longrightarrow> \<exists>e'. collect xs = Inl e'"
  by (induction xs rule: collect.induct) (auto split: sum.splits)

lemma num_coarse_card: "num_coarse maps = card {m \<in> set maps. 0 \<le> m}"
proof -
  have "set (filter (\<lambda>m. 0 \<le> m) maps) = {m \<in> set maps. 0 \<le> m}"
    by auto
  then show ?thesis
    by (simp add: num_coarse_def length_remdups_card_conv)
qed

lemma zip_as_nth:
  assumes "length r = length maps"
  shows "zip r maps = map (\<lambda>i. (r ! i, maps ! i)) [0..<length maps]"
  using assms by (intro nth_equalityI) simp_all

lemma merge_entry_sum:
  assumes "length r = length maps"
  shows "merge_entry maps r j = (\<Sum>j' | j' < length maps \<and> maps ! j' = int j. r ! j')"
proof -
  let ?idx = "filter (\<lambda>i. maps ! i = int j) [0..<length maps]"
  have "filter (\<lambda>(p, m). m = int j) (zip r maps) = map (\<lambda>i. (r ! i, maps ! i)) ?idx"
    by (simp add: zip_as_nth [OF assms] filter_map comp_def)
  then have "merge_entry maps r j = sum_list (map (\<lambda>i. r ! i) ?idx)"
    by (simp add: merge_entry_def comp_def)
  also have "\<dots> = sum (\<lambda>i. r ! i) (set ?idx)"
    by (rule sum_list_distinct_conv_sum_set) simp
  also have "set ?idx = {j'. j' < length maps \<and> maps ! j' = int j}"
    by auto
  finally show ?thesis .
qed

lemma sum_list_merge_row:
  "sum_list (merge_row maps r) = (\<Sum>j<num_coarse maps. merge_entry maps r j)"
  by (simp add: merge_row_def interv_sum_list_conv_sum_set_nat lessThan_atLeast0)

lemma sum_list_divide:
  fixes s :: rat
  shows "sum_list (map (\<lambda>x. x / s) xs) = sum_list xs / s"
  by (induction xs) (simp_all add: add_divide_distrib)

lemma renormalize_Inr:
  assumes "sum_list r \<noteq> 0"
  shows "renormalize r = Inr (map (\<lambda>x. x / sum_list r) r)"
  using assms by (simp add: renormalize_def)

lemma renormalize_Inl: "sum_list r = 0 \<Longrightarrow> renormalize r = Inl ZeroDivision"
  by (simp add: renormalize_def)

lemma renormalize_error: "renormalize r = Inl e \<Longrightarrow> e = ZeroDivision"
  by (auto simp: renormalize_def Let_def split: if_splits)

lemma renormalize_error': "Inl e = renormalize r \<Longrightarrow> e = ZeroDivision"
  by (auto simp: renormalize_def Let_def split: if_splits)

lemma merge_probs_no_drop:
  assumes "\<not> list_ex (\<lambda>m. m < 0) maps"
  shows "merge_probs probs maps = Inr (map (merge_row maps) probs)"
  using assms by (simp add: merge_probs_def)

lemma merge_probs_drop:
  assumes "list_ex (\<lambda>m. m < 0) maps"
    and "\<forall>r\<in>set probs. sum_list (merge_row maps r) \<noteq> 0"
  shows "merge_probs probs maps =
           Inr (map (\<lambda>r. map (\<lambda>x. x / sum_list (merge_row maps r)) (merge_row maps r)) probs)"
proof -
  have "map renormalize (map (merge_row maps) probs) =
          map Inr (map (\<lambda>r. map (\<lambda>x. x / sum_list (merge_row maps r)) (merge_row maps r)) probs)"
    using assms(2) by (simp add: renormalize_Inr)
  then have "collect (map renormalize (map (merge_row maps) probs)) =
          Inr (map (\<lambda>r. map (\<lambda>x. x / sum_list (merge_row maps r)) (merge_row maps r)) probs)"
    by (simp only: collect_map_Inr)
  with assms(1) show ?thesis by (simp add: merge_probs_def)
qed

text \<open>
  Claim C1.  For a probability matrix with \<open>N\<close> rows of \<open>L\<close> entries and a class map of length
  \<open>L\<close>, \<open>merge_probs\<close> returns a matrix with \<open>N\<close> rows of \<open>K\<close> entries, \<open>K\<close> the number of
  distinct non-negative values of the map.  Before any renormalization, column \<open>j\<close> is the
  sum of the input columns \<open>j'\<close> with \<open>maps[j'] = j\<close>; with no negative entry in the map that
  is the output.  With a negative entry in the map every row is divided by its post-drop sum,
  the sum of those columns, and then sums to one (exactly, in rational arithmetic).  A row
  whose post-drop sum is zero is claim C2's subject and is excluded here.
\<close>

theorem merge_probs_shape_columns_rows:
  assumes shape: "\<forall>r\<in>set probs. length r = length maps"
    and mass: "list_ex (\<lambda>m. m < 0) maps \<longrightarrow> (\<forall>r\<in>set probs. sum_list (merge_row maps r) \<noteq> 0)"
  shows "\<exists>merged. merge_probs probs maps = Inr merged \<and> length merged = length probs \<and>
     (\<forall>i<length probs.
        let K = card {m \<in> set maps. 0 \<le> m};
            column = (\<lambda>j. \<Sum>j' | j' < length maps \<and> maps ! j' = int j. probs ! i ! j');
            s = (\<Sum>j<K. column j)
        in length (merged ! i) = K \<and>
           (if list_ex (\<lambda>m. m < 0) maps
            then (\<forall>j<K. merged ! i ! j = column j / s) \<and> sum_list (merged ! i) = 1
            else (\<forall>j<K. merged ! i ! j = column j)))"
proof (cases "list_ex (\<lambda>m. m < 0) maps")
  case False
  have "length (map (merge_row maps) probs ! i) = card {m \<in> set maps. 0 \<le> m} \<and>
        (\<forall>j<card {m \<in> set maps. 0 \<le> m}. map (merge_row maps) probs ! i ! j =
            (\<Sum>j' | j' < length maps \<and> maps ! j' = int j. probs ! i ! j'))"
    if i: "i < length probs" for i
  proof -
    from i shape have len: "length (probs ! i) = length maps" by simp
    show ?thesis
      using i by (simp add: merge_row_def num_coarse_card [symmetric] merge_entry_sum [OF len])
  qed
  then have "\<forall>i<length probs.
      length (map (merge_row maps) probs ! i) = card {m \<in> set maps. 0 \<le> m} \<and>
      (\<forall>j<card {m \<in> set maps. 0 \<le> m}. map (merge_row maps) probs ! i ! j =
            (\<Sum>j' | j' < length maps \<and> maps ! j' = int j. probs ! i ! j'))"
    by blast
  moreover have "merge_probs probs maps = Inr (map (merge_row maps) probs)"
    using False by (rule merge_probs_no_drop)
  moreover have "length (map (merge_row maps) probs) = length probs"
    by simp
  ultimately show ?thesis
    by (simp only: Let_def False if_False) blast
next
  case True
  with mass have nz: "\<forall>r\<in>set probs. sum_list (merge_row maps r) \<noteq> 0" by simp
  let ?out = "map (\<lambda>r. map (\<lambda>x. x / sum_list (merge_row maps r)) (merge_row maps r)) probs"
  have "length (?out ! i) = card {m \<in> set maps. 0 \<le> m} \<and>
        (\<forall>j<card {m \<in> set maps. 0 \<le> m}. ?out ! i ! j =
            (\<Sum>j' | j' < length maps \<and> maps ! j' = int j. probs ! i ! j') /
            (\<Sum>j<card {m \<in> set maps. 0 \<le> m}.
                \<Sum>j' | j' < length maps \<and> maps ! j' = int j. probs ! i ! j')) \<and>
        sum_list (?out ! i) = 1"
    if i: "i < length probs" for i
  proof -
    from i shape have len: "length (probs ! i) = length maps" by simp
    from i nz have s: "sum_list (merge_row maps (probs ! i)) \<noteq> 0" by simp
    have total: "sum_list (merge_row maps (probs ! i)) =
        (\<Sum>j<card {m \<in> set maps. 0 \<le> m}.
                \<Sum>j' | j' < length maps \<and> maps ! j' = int j. probs ! i ! j')"
      by (simp add: sum_list_merge_row num_coarse_card merge_entry_sum [OF len])
    have "sum_list (?out ! i) = 1"
      using i s by (simp add: sum_list_divide)
    moreover have "length (?out ! i) = card {m \<in> set maps. 0 \<le> m}"
      using i by (simp add: merge_row_def num_coarse_card)
    moreover have "?out ! i ! j =
            (\<Sum>j' | j' < length maps \<and> maps ! j' = int j. probs ! i ! j') /
            (\<Sum>j<card {m \<in> set maps. 0 \<le> m}.
                \<Sum>j' | j' < length maps \<and> maps ! j' = int j. probs ! i ! j')"
      if "j < card {m \<in> set maps. 0 \<le> m}" for j
    proof -
      from that have "merge_row maps (probs ! i) ! j = merge_entry maps (probs ! i) j"
        by (simp add: merge_row_def num_coarse_card)
      with that i show ?thesis
        by (simp add: total [symmetric] merge_entry_sum [OF len] merge_row_def num_coarse_card)
    qed
    ultimately show ?thesis by blast
  qed
  then have "\<forall>i<length probs.
        length (?out ! i) = card {m \<in> set maps. 0 \<le> m} \<and>
        (\<forall>j<card {m \<in> set maps. 0 \<le> m}. ?out ! i ! j =
            (\<Sum>j' | j' < length maps \<and> maps ! j' = int j. probs ! i ! j') /
            (\<Sum>j<card {m \<in> set maps. 0 \<le> m}.
                \<Sum>j' | j' < length maps \<and> maps ! j' = int j. probs ! i ! j')) \<and>
        sum_list (?out ! i) = 1"
    by blast
  moreover have "merge_probs probs maps = Inr ?out"
    using True nz by (rule merge_probs_drop)
  moreover have "length ?out = length probs"
    by simp
  ultimately show ?thesis
    by (simp only: Let_def True if_True) blast
qed


theorem merge_probs_shape_columns_rows_witness:
  "\<exists>merged. merge_probs [[1 / 2, 1 / 4, 0, 0, 0, 0, 0, 0, 1 / 8, 1 / 8, 0, 0]] model_maps = Inr merged \<and>
      merged = [[1 / 2, 0, 0, 0, 1 / 2]] \<and> length merged = 1 \<and> sum_list (merged ! 0) = 1"
proof -
  let ?P = "[[1 / 2, 1 / 4, 0, 0, 0, 0, 0, 0, 1 / 8, 1 / 8, 0, 0]] :: row list"
  have shape: "\<forall>r\<in>set ?P. length r = length model_maps"
    by (simp add: model_maps_def)
  have "sum_list (merge_row model_maps [1 / 2, 1 / 4, 0, 0, 0, 0, 0, 0, 1 / 8, 1 / 8, 0, 0]) = 1 / 2"
    by code_simp
  then have mass: "list_ex (\<lambda>m. m < 0) model_maps \<longrightarrow>
      (\<forall>r\<in>set ?P. sum_list (merge_row model_maps r) \<noteq> 0)"
    by simp
  from merge_probs_shape_columns_rows [OF shape mass] obtain merged
    where m: "merge_probs ?P model_maps = Inr merged" "length merged = length ?P"
    by blast
  have "merge_probs ?P model_maps = Inr [[1 / 2, 0, 0, 0, 1 / 2]]"
    by code_simp
  with m show ?thesis by auto
qed

lemma merge_probs_error: "merge_probs probs maps = Inl e \<Longrightarrow> e = ZeroDivision"
  by (auto simp: merge_probs_def Let_def split: if_splits
        dest!: collect_Inl_mem dest: renormalize_error')

lemma merge_probs_zero_mass:
  assumes "list_ex (\<lambda>m. m < 0) maps" and "r \<in> set probs" and "sum_list (merge_row maps r) = 0"
  shows "merge_probs probs maps = Inl ZeroDivision"
proof -
  from assms(2,3) have "Inl ZeroDivision \<in> set (map renormalize (map (merge_row maps) probs))"
    by (force simp: renormalize_Inl [symmetric])
  then obtain e where "collect (map renormalize (map (merge_row maps) probs)) = Inl e"
    by (blast dest: collect_mem_Inl)
  with assms(1) have e: "merge_probs probs maps = Inl e"
    by (simp add: merge_probs_def)
  with merge_probs_error [OF e] show ?thesis by simp
qed

lemma merge_all_Inl:
  assumes "merge_all merge maps sentence_probs = Inl e"
  shows "\<exists>pred_prob\<in>set sentence_probs. merge pred_prob maps = Inl e"
proof -
  from assms have "Inl e \<in> set (map (\<lambda>pred_prob. merge pred_prob maps) sentence_probs)"
    unfolding merge_all_def by (rule collect_Inl_mem)
  then show ?thesis by auto
qed

lemma merge_all_Inr:
  "merge_all merge maps sentence_probs = Inr merged \<longleftrightarrow>
     map (\<lambda>pred_prob. merge pred_prob maps) sentence_probs = map Inr merged"
  unfolding merge_all_def by (auto dest: collect_Inr_D simp: collect_map_Inr)

lemma merge_all_zero_mass:
  assumes "list_ex (\<lambda>m. m < 0) maps" and "pred_prob \<in> set sentence_probs"
    and "r \<in> set pred_prob" and "sum_list (merge_row maps r) = 0"
  shows "merge_all merge_probs maps sentence_probs = Inl ZeroDivision"
proof -
  from assms(1,3,4) have "merge_probs pred_prob maps = Inl ZeroDivision"
    by (rule merge_probs_zero_mass)
  with assms(2)
  have "Inl ZeroDivision \<in> set (map (\<lambda>pred_prob. merge_probs pred_prob maps) sentence_probs)"
    by force
  then obtain e where e: "merge_all merge_probs maps sentence_probs = Inl e"
    unfolding merge_all_def by (blast dest: collect_mem_Inl)
  from merge_all_Inl [OF e] have "e = ZeroDivision"
    by (auto dest: merge_probs_error)
  with e show ?thesis by simp
qed

text \<open>
  Claim C2, as amended.  The caller of line 510 makes no test before it hands a matrix to
  \<open>merge_probs\<close> and none after: the run ends in an error only when \<open>merge_probs\<close> itself
  raised that error on one of the matrices, and it returns a list of matrices exactly when
  \<open>merge_probs\<close> returned each of them.  So it raises no \<open>RenormalizationError\<close> of its own
  for a row whose retained mass is zero; with \<open>merge_probs\<close> as the specification describes
  it, dividing each row by its post-drop sum, the division by that zero is what happens.
\<close>

theorem merge_all_no_guard:
  "(merge_all merge maps sentence_probs = Inl e \<longrightarrow>
      (\<exists>pred_prob\<in>set sentence_probs. merge pred_prob maps = Inl e)) \<and>
   (merge_all merge maps sentence_probs = Inr merged \<longleftrightarrow>
      map (\<lambda>pred_prob. merge pred_prob maps) sentence_probs = map Inr merged) \<and>
   (list_ex (\<lambda>m. m < 0) maps \<and> pred_prob \<in> set sentence_probs \<and> r \<in> set pred_prob \<and>
      sum_list (merge_row maps r) = 0 \<longrightarrow>
    merge_all merge_probs maps sentence_probs = Inl ZeroDivision)"
  using merge_all_Inl [of merge maps sentence_probs e]
    merge_all_Inr [of merge maps sentence_probs merged]
    merge_all_zero_mass [of maps pred_prob sentence_probs r]
  by blast

theorem merge_all_no_guard_witness:
  "list_ex (\<lambda>m. m < 0) model_maps \<and>
   sum_list (merge_row model_maps [1 / 2, 0, 0, 0, 0, 0, 0, 0, 0, 0, 1 / 2, 0]) = 0 \<and>
   merge_all merge_probs model_maps
     [[[0, 1, 0, 0, 0, 0, 0, 0, 0, 0, 0, 0]],
      [[0, 0, 1, 0, 0, 0, 0, 0, 0, 0, 0, 0], [1 / 2, 0, 0, 0, 0, 0, 0, 0, 0, 0, 1 / 2, 0]]]
     = Inl ZeroDivision \<and>
   (\<exists>pred_prob. merge_probs pred_prob model_maps = Inl ZeroDivision)"
proof -
  let ?A = "[[0, 1, 0, 0, 0, 0, 0, 0, 0, 0, 0, 0]] :: row list"
  let ?r = "[1 / 2, 0, 0, 0, 0, 0, 0, 0, 0, 0, 1 / 2, 0] :: row"
  let ?B = "[[0, 0, 1, 0, 0, 0, 0, 0, 0, 0, 0, 0], ?r] :: row list"
  have h1: "list_ex (\<lambda>m. m < 0) model_maps"
    by (simp add: model_maps_def)
  have h4: "sum_list (merge_row model_maps ?r) = 0"
    by code_simp
  have h: "list_ex (\<lambda>m. m < 0) model_maps \<and> ?B \<in> set [?A, ?B] \<and> ?r \<in> set ?B \<and>
      sum_list (merge_row model_maps ?r) = 0"
    using h1 h4 by simp
  note t = merge_all_no_guard [of merge_probs model_maps "[?A, ?B]" ZeroDivision _ ?B ?r]
  from t h have z: "merge_all merge_probs model_maps [?A, ?B] = Inl ZeroDivision"
    by (rule conjunct2 [THEN conjunct2, THEN mp])
  from t z have "\<exists>pred_prob\<in>set [?A, ?B]. merge_probs pred_prob model_maps = Inl ZeroDivision"
    by (rule conjunct1 [THEN mp])
  then have "\<exists>pred_prob. merge_probs pred_prob model_maps = Inl ZeroDivision"
    by blast
  with h1 h4 z show ?thesis by (intro conjI)
qed

text \<open>
  Claim C2 as stated fails: a row with all its mass on the first fine class, which
  \<open>model_maps\<close> drops.
\<close>

theorem renormalization_error_counterexample:
  "sum_list (merge_row model_maps [1, 0, 0, 0, 0, 0, 0, 0, 0, 0, 0, 0]) = 0 \<and>
   merge_all merge_probs model_maps [[[1, 0, 0, 0, 0, 0, 0, 0, 0, 0, 0, 0]]] = Inl ZeroDivision \<and>
   merge_all merge_probs model_maps [[[1, 0, 0, 0, 0, 0, 0, 0, 0, 0, 0, 0]]] \<noteq>
     Inl RenormalizationError"
  by code_simp

section \<open>Properties of the Subword Aggregator\<close>

lemma spans_from_bounds:
  assumes "(a, b) \<in> set (spans_from start xs)"
  shows "start \<le> a \<and> a \<le> b"
  using assms by (induction xs arbitrary: start) fastforce+

lemma spans_from_nonempty:
  assumes "(a, b) \<in> set (spans_from start xs)" and "\<forall>x\<in>set xs. x \<noteq> []"
  shows "a < b"
  using assms by (induction xs arbitrary: start) fastforce+

lemma length_spans_from [simp]: "length (spans_from start xs) = length xs"
  by (induction xs arbitrary: start) simp_all

text \<open>Spans that begin at or after the end of the word do not overlap it.\<close>

lemma overlapping_from_beyond:
  assumes "snd w \<le> start"
  shows "overlapping_from start ts w = []"
proof -
  have "\<not> overlaps s w" if "(s, x) \<in> set (zip (spans_from start (map fst ts)) ts)" for s x
  proof -
    from that have "s \<in> set (spans_from start (map fst ts))"
      by (rule set_zip_leftD)
    then have "start \<le> fst s"
      using spans_from_bounds [of "fst s" "snd s" start "map fst ts"] by simp
    with assms show ?thesis by (simp add: overlaps_def)
  qed
  then have "filter (\<lambda>(s, x). overlaps s w) (zip (spans_from start (map fst ts)) ts) = []"
    by (auto simp: filter_empty_conv)
  then show ?thesis by (simp add: overlapping_from_def)
qed

text \<open>For subwords that all lie after the start of the word, only the end of the word
  matters.\<close>

lemma overlapping_from_start:
  assumes "\<forall>(t, p)\<in>set ts. t \<noteq> []" and "s \<le> start" and "s' \<le> start"
  shows "overlapping_from start ts (s, e) = overlapping_from start ts (s', e)"
proof -
  have "overlaps sp (s, e) = overlaps sp (s', e)"
    if "(sp, x) \<in> set (zip (spans_from start (map fst ts)) ts)" for sp x
  proof -
    from that have m: "(fst sp, snd sp) \<in> set (spans_from start (map fst ts))"
      by (auto dest: set_zip_leftD)
    from assms(1) have "\<forall>x\<in>set (map fst ts). x \<noteq> []" by auto
    from spans_from_bounds [OF m] spans_from_nonempty [OF m this] assms(2,3)
    show ?thesis by (auto simp: overlaps_def)
  qed
  then have "filter (\<lambda>(sp, x). overlaps sp (s, e)) (zip (spans_from start (map fst ts)) ts) =
             filter (\<lambda>(sp, x). overlaps sp (s', e)) (zip (spans_from start (map fst ts)) ts)"
    by (intro filter_cong) auto
  then show ?thesis by (simp add: overlapping_from_def)
qed

lemma overlapping_from_Cons:
  "overlapping_from start ((t, p) # rest) w =
     (if overlaps (start, start + length t) w then [(t, p)] else []) @
     overlapping_from (start + length t) rest w"
  by (simp add: overlapping_from_def)

text \<open>A subword that ends at or before the start of the word can be left behind.\<close>

lemma overlapping_from_drop:
  assumes "start + chars (take n ts) \<le> fst w"
  shows "overlapping_from start ts w = overlapping_from (start + chars (take n ts)) (drop n ts) w"
  using assms
proof (induction n arbitrary: start ts)
  case 0
  then show ?case by (simp add: chars_def)
next
  case (Suc n)
  show ?case
  proof (cases ts)
    case Nil
    then show ?thesis by (simp add: chars_def overlapping_from_def)
  next
    case (Cons tp rest)
    obtain t p where tp: "tp = (t, p)" by (cases tp)
    from Suc.prems Cons tp have le: "start + length t + chars (take n rest) \<le> fst w"
      by (simp add: chars_def)
    then have "\<not> overlaps (start, start + length t) w"
      by (simp add: overlaps_def)
    with Suc.IH [OF le] Cons tp show ?thesis
      by (simp add: overlapping_from_Cons chars_def add.assoc)
  qed
qed


text \<open>What \<open>consume\<close> gathers for a word of \<open>remain\<close> characters that begins \<open>j\<close> characters into
  the first subword: the subwords whose span overlaps the word's, and a cursor at the word's
  end.\<close>

lemma consume_overlapping:
  assumes "\<forall>(t, p)\<in>set ts. t \<noteq> []" and "0 < remain"
    and "ts \<noteq> [] \<longrightarrow> j < length (fst (hd ts))"
    and "consume remain ts j = Some (cs, ts', j')"
  shows "cs = overlapping_from start ts (start + j, start + j + remain) \<and>
         (\<exists>n. ts' = drop n ts \<and> chars (take n ts) + j' = j + remain) \<and>
         (ts' \<noteq> [] \<longrightarrow> j' < length (fst (hd ts')))"
  using assms
proof (induction ts arbitrary: remain j start cs)
  case Nil
  then show ?case by simp
next
  case (Cons tp rest)
  obtain t p where tp: "tp = (t, p)" by (cases tp)
  from Cons.prems(3) tp have j: "j < length t" by simp
  from Cons.prems(1) have ne: "\<forall>(t, p)\<in>set rest. t \<noteq> []" by simp
  have head: "overlaps (start, start + length t) (start + j, start + j + remain)"
    using j Cons.prems(2) by (simp add: overlaps_def)
  show ?case
  proof (cases "length t - j > remain")
    case True
    with Cons.prems(2,4) tp have res: "cs = [(t, p)]" "ts' = tp # rest" "j' = j + remain"
      by auto
    from True have "start + j + remain \<le> start + length t" by simp
    then have "overlapping_from (start + length t) rest (start + j, start + j + remain) = []"
      by (intro overlapping_from_beyond) simp
    with head tp res have "cs = overlapping_from start (tp # rest) (start + j, start + j + remain)"
      by (simp add: overlapping_from_Cons)
    moreover have "ts' = drop 0 (tp # rest) \<and> chars (take 0 (tp # rest)) + j' = j + remain"
      using res by (simp add: chars_def)
    moreover from True res tp have "ts' \<noteq> [] \<longrightarrow> j' < length (fst (hd ts'))"
      by simp
    ultimately show ?thesis by blast
  next
    case False
    define remain' where "remain' = remain - (length t - j)"
    from False j have rem: "remain = remain' + (length t - j)"
      by (simp add: remain'_def)
    from False Cons.prems(2,4) tp obtain cs' where
      rec: "consume remain' rest 0 = Some (cs', ts', j')" and cs: "cs = (t, p) # cs'"
      by (auto simp: remain'_def split: option.splits)
    show ?thesis
    proof (cases "remain' = 0")
      case True
      with rec have r0: "cs' = []" "ts' = rest" "j' = 0"
        by (cases rest; auto)+
      from True rem j have "start + j + remain \<le> start + length t" by simp
      then have "overlapping_from (start + length t) rest (start + j, start + j + remain) = []"
        by (intro overlapping_from_beyond) simp
      with head tp cs r0
      have "cs = overlapping_from start (tp # rest) (start + j, start + j + remain)"
        by (simp add: overlapping_from_Cons)
      moreover have "ts' = drop 1 (tp # rest) \<and> chars (take 1 (tp # rest)) + j' = j + remain"
        using r0 tp True rem j by (simp add: chars_def)
      moreover from ne r0 have "ts' \<noteq> [] \<longrightarrow> j' < length (fst (hd ts'))"
        by (cases rest) auto
      ultimately show ?thesis by blast
    next
      case False
      then have pos: "0 < remain'" by simp
      from ne have hd0: "rest \<noteq> [] \<longrightarrow> 0 < length (fst (hd rest))"
        by (cases rest) auto
      from Cons.IH [OF ne pos hd0 rec, of "start + length t"]
      obtain n where ih: "cs' = overlapping_from (start + length t) rest
                                  (start + length t + 0, start + length t + 0 + remain')"
        and n: "ts' = drop n rest" "chars (take n rest) + j' = 0 + remain'"
        and h: "ts' \<noteq> [] \<longrightarrow> j' < length (fst (hd ts'))"
        by blast
      from rem j have e: "start + length t + remain' = start + j + remain"
        by simp
      from ih have "cs' = overlapping_from (start + length t) rest
                            (start + length t, start + j + remain)"
        by (simp only: add_0_right e)
      also have "\<dots> = overlapping_from (start + length t) rest (start + j, start + j + remain)"
        using j by (intro overlapping_from_start [OF ne]) simp_all
      finally have "cs' = overlapping_from (start + length t) rest (start + j, start + j + remain)" .
      with head tp cs
      have "cs = overlapping_from start (tp # rest) (start + j, start + j + remain)"
        by (simp add: overlapping_from_Cons)
      moreover have "ts' = drop (Suc n) (tp # rest) \<and>
                     chars (take (Suc n) (tp # rest)) + j' = j + remain"
        using n tp rem j by (simp add: chars_def)
      ultimately show ?thesis using h by blast
    qed
  qed
qed

text \<open>The cursor walk computes the contract: the row of every word is the average of the
  subwords whose span overlaps the span of the word.\<close>

lemma walk_overlapping:
  assumes "\<forall>(t, p)\<in>set ts. t \<noteq> []" and "\<forall>w\<in>set ws. w \<noteq> []"
    and "ts \<noteq> [] \<longrightarrow> j < length (fst (hd ts))"
    and "walk pol ws ts j = Inr rows"
  shows "length rows = length ws \<and>
         (\<forall>k<length ws.
            average pol (overlapping_from start ts (spans_from (start + j) ws ! k)) = Inr (rows ! k))"
  using assms
proof (induction ws arbitrary: ts j start rows)
  case Nil
  then show ?case by simp
next
  case (Cons w ws)
  from Cons.prems(4) obtain cs ts' j' probs rows' where
    c: "consume (length w) ts j = Some (cs, ts', j')"
    and a: "average pol cs = Inr probs"
    and w: "walk pol ws ts' j' = Inr rows'"
    and r: "rows = probs # rows'"
    by (auto split: option.splits sum.splits)
  from Cons.prems(2) have wpos: "0 < length w" and ne_ws: "\<forall>w\<in>set ws. w \<noteq> []"
    by simp_all
  from consume_overlapping [OF Cons.prems(1) wpos Cons.prems(3) c, of start]
  obtain n where cs: "cs = overlapping_from start ts (start + j, start + j + length w)"
    and n: "ts' = drop n ts" "chars (take n ts) + j' = j + length w"
    and h: "ts' \<noteq> [] \<longrightarrow> j' < length (fst (hd ts'))"
    by blast
  from Cons.prems(1) n(1) have ne': "\<forall>(t, p)\<in>set ts'. t \<noteq> []"
    by (auto dest: in_set_dropD)
  from Cons.IH [OF ne' ne_ws h w, of "start + chars (take n ts)"]
  have len: "length rows' = length ws"
    and ih: "\<forall>k<length ws.
       average pol (overlapping_from (start + chars (take n ts)) ts'
                      (spans_from (start + chars (take n ts) + j') ws ! k)) = Inr (rows' ! k)"
    by blast+
  from n(2) have pos: "start + chars (take n ts) + j' = start + j + length w"
    by simp
  have "average pol (overlapping_from start ts (spans_from (start + j) (w # ws) ! k)) =
          Inr (rows ! k)"
    if k: "k < length (w # ws)" for k
  proof (cases k)
    case 0
    with cs a r show ?thesis by simp
  next
    case (Suc k')
    with k have k': "k' < length ws" by simp
    define sp where "sp = spans_from (start + j + length w) ws ! k'"
    from k' have "sp \<in> set (spans_from (start + j + length w) ws)"
      by (simp add: sp_def)
    then have "start + j + length w \<le> fst sp"
      using spans_from_bounds [of "fst sp" "snd sp"] by simp
    with pos have "start + chars (take n ts) \<le> fst sp" by simp
    from overlapping_from_drop [OF this] n(1)
    have "overlapping_from start ts sp = overlapping_from (start + chars (take n ts)) ts' sp"
      by simp
    with ih k' pos Suc r show ?thesis
      by (simp add: sp_def)
  qed
  with len r show ?case by simp
qed


subsection \<open>Averages\<close>

lemma vsum_length:
  assumes "rs \<noteq> []" and "\<forall>r\<in>set rs. length r = K"
  shows "length (vsum rs) = K"
  using assms by (induction rs rule: vsum.induct) (simp_all add: vadd_def)

lemma sum_list_map2_add:
  fixes a b :: "rat list"
  assumes "length a = length b"
  shows "sum_list (map2 (+) a b) = sum_list a + sum_list b"
  using assms by (induction a b rule: list_induct2) simp_all

lemma vsum_sum_list:
  assumes "rs \<noteq> []" and "\<forall>r\<in>set rs. length r = K"
  shows "sum_list (vsum rs) = sum_list (map sum_list rs)"
  using assms
proof (induction rs rule: vsum.induct)
  case 1
  then show ?case by simp
next
  case (2 r)
  then show ?case by simp
next
  case (3 r r' rs)
  then have "length (vsum (r' # rs)) = K" "length r = K"
    by (simp_all add: vsum_length)
  with 3 show ?case
    by (simp add: vadd_def sum_list_map2_add)
qed

lemma vsum_nth:
  assumes "rs \<noteq> []" and "\<forall>r\<in>set rs. length r = K" and "c < K"
  shows "vsum rs ! c = sum_list (map (\<lambda>r. r ! c) rs)"
  using assms
proof (induction rs rule: vsum.induct)
  case 1
  then show ?case by simp
next
  case (2 r)
  then show ?case by simp
next
  case (3 r r' rs)
  then have "length (vsum (r' # rs)) = K" "length r = K"
    by (simp_all add: vsum_length)
  with 3 show ?case
    by (simp add: vadd_def)
qed

lemma scale_one [simp]: "scale 1 p = p"
  by (simp add: scale_def)

lemma average_Uniform:
  assumes "cs \<noteq> []"
  shows "average Uniform cs = Inr (map (\<lambda>x. x / of_nat (length cs)) (vsum (map snd cs)))"
proof -
  have tot: "sum_list (map (\<lambda>(t, p). weight Uniform t) cs) = (of_nat (length cs) :: rat)"
    by (induction cs) auto
  have sc: "map (\<lambda>(t, p). scale (weight Uniform t) p) cs = map snd cs"
    by (induction cs) auto
  show ?thesis
    unfolding average_def Let_def tot sc using assms by simp
qed

lemma average_Nil [simp]: "average pol [] = Inl ZeroDivision"
  by (simp add: average_def)

lemma average_Uniform_Inr:
  assumes "average Uniform cs = Inr r"
  shows "cs \<noteq> [] \<and> r = map (\<lambda>x. x / of_nat (length cs)) (vsum (map snd cs))"
proof -
  from assms have "cs \<noteq> []" by auto
  with assms average_Uniform [OF this] show ?thesis by simp
qed

lemma average_Uniform_simplex:
  assumes "average Uniform cs = Inr r" and "\<forall>(t, p)\<in>set cs. sum_list p = 1 \<and> length p = K"
  shows "sum_list r = 1 \<and> length r = K"
proof -
  from average_Uniform_Inr [OF assms(1)]
  have ne: "cs \<noteq> []" and r: "r = map (\<lambda>x. x / of_nat (length cs)) (vsum (map snd cs))"
    by simp_all
  from assms(2) have len: "\<forall>p\<in>set (map snd cs). length p = K"
    and one: "map sum_list (map snd cs) = map (\<lambda>_. 1) cs"
    by auto
  from ne have ne': "map snd cs \<noteq> []" by simp
  have "sum_list (vsum (map snd cs)) = sum_list (map sum_list (map snd cs))"
    using ne' len by (rule vsum_sum_list)
  also have "\<dots> = of_nat (length cs)"
    by (simp only: one) (simp add: sum_list_triv)
  finally have "sum_list r = of_nat (length cs) / (of_nat (length cs) :: rat)"
    by (simp add: r sum_list_divide)
  with ne vsum_length [OF ne' len] r show ?thesis by simp
qed

subsection \<open>The walk returns\<close>

lemma consume_subset:
  "consume remain ts j = Some (cs, ts', j') \<Longrightarrow> set cs \<subseteq> set ts \<and> set ts' \<subseteq> set ts"
proof (induction remain ts j arbitrary: cs rule: consume.induct)
  case (1 remain j)
  then show ?case by (simp split: if_splits)
next
  case (2 remain t p rest j)
  show ?case
  proof (cases "remain = 0 \<or> length t - j > remain")
    case True
    with "2.prems" show ?thesis by (auto split: if_splits)
  next
    case False
    with "2.prems" obtain cs' where
      rec: "consume (remain - (length t - j)) rest 0 = Some (cs', ts', j')" and cs: "cs = (t, p) # cs'"
      by (auto split: option.splits)
    from False rec "2.IH" have "set cs' \<subseteq> set rest \<and> set ts' \<subseteq> set rest"
      by simp
    with cs show ?thesis by auto
  qed
qed

lemma consume_total:
  assumes "remain + j \<le> chars ts"
  shows "\<exists>cs ts' j'. consume remain ts j = Some (cs, ts', j') \<and>
           chars ts + j' \<le> chars ts' + j + remain \<and> (0 < remain \<longrightarrow> cs \<noteq> [])"
  using assms
proof (induction remain ts j rule: consume.induct)
  case (1 remain j)
  then show ?case by (simp add: chars_def)
next
  case (2 remain t p rest j)
  show ?case
  proof (cases "remain = 0 \<or> length t - j > remain")
    case True
    then show ?thesis by auto
  next
    case False
    with "2.prems" have "remain - (length t - j) + 0 \<le> chars rest"
      by (simp add: chars_def)
    with False "2.IH" obtain cs ts' j' where
      rec: "consume (remain - (length t - j)) rest 0 = Some (cs, ts', j')"
      and le: "chars rest + j' \<le> chars ts' + 0 + (remain - (length t - j))"
      by auto
    have "chars ((t, p) # rest) = length t + chars rest"
      by (simp add: chars_def)
    with le False have "chars ((t, p) # rest) + j' \<le> chars ts' + j + remain"
      by arith
    with False rec show ?thesis by simp
  qed
qed

lemma walk_Uniform_total:
  assumes "sum_list (map length ws) + j \<le> chars ts" and "\<forall>w\<in>set ws. w \<noteq> []"
  shows "\<exists>rows. walk Uniform ws ts j = Inr rows"
  using assms
proof (induction ws arbitrary: ts j)
  case Nil
  then show ?case by simp
next
  case (Cons w ws)
  from Cons.prems(1) have "length w + j \<le> chars ts" by simp
  from consume_total [OF this] Cons.prems(2) obtain cs ts' j' where
    c: "consume (length w) ts j = Some (cs, ts', j')"
    and le: "chars ts + j' \<le> chars ts' + j + length w" and ne: "cs \<noteq> []"
    by auto
  from le Cons.prems(1) have le': "sum_list (map length ws) + j' \<le> chars ts'"
    by simp
  from Cons.prems(2) have "\<forall>w\<in>set ws. w \<noteq> []"
    by simp
  from Cons.IH [OF le' this] obtain rows where "walk Uniform ws ts' j' = Inr rows"
    by blast
  with c average_Uniform [OF ne] show ?case by simp
qed

lemma walk_Uniform_rows:
  assumes "walk Uniform ws ts j = Inr rows"
  shows "length rows = length ws \<and>
         ((\<forall>(t, p)\<in>set ts. sum_list p = 1 \<and> length p = K) \<longrightarrow>
          (\<forall>r\<in>set rows. sum_list r = 1 \<and> length r = K))"
  using assms
proof (induction ws arbitrary: ts j rows)
  case Nil
  then show ?case by simp
next
  case (Cons w ws)
  from Cons.prems obtain cs ts' j' probs rows' where
    c: "consume (length w) ts j = Some (cs, ts', j')"
    and a: "average Uniform cs = Inr probs"
    and w: "walk Uniform ws ts' j' = Inr rows'"
    and r: "rows = probs # rows'"
    by (auto split: option.splits sum.splits)
  from consume_subset [OF c] have sub: "set cs \<subseteq> set ts" "set ts' \<subseteq> set ts"
    by simp_all
  from Cons.IH [OF w] have len: "length rows' = length ws"
    and ih: "(\<forall>(t, p)\<in>set ts'. sum_list p = 1 \<and> length p = K) \<longrightarrow>
             (\<forall>r\<in>set rows'. sum_list r = 1 \<and> length r = K)"
    by (rule conjunct1, rule conjunct2)
  have "\<forall>r\<in>set rows. sum_list r = 1 \<and> length r = K"
    if all: "\<forall>(t, p)\<in>set ts. sum_list p = 1 \<and> length p = K"
  proof -
    from all sub(1) have "\<forall>(t, p)\<in>set cs. sum_list p = 1 \<and> length p = K" by blast
    from average_Uniform_simplex [OF a this] have p: "sum_list probs = 1 \<and> length probs = K" .
    from all sub(2) have "\<forall>(t, p)\<in>set ts'. sum_list p = 1 \<and> length p = K" by blast
    with ih have "\<forall>r\<in>set rows'. sum_list r = 1 \<and> length r = K" by (rule mp)
    with p show ?thesis unfolding r by (simp only: set_simps ball_simps)
  qed
  moreover from len r have "length rows = length (w # ws)" by simp
  ultimately show ?case by blast
qed

lemma chars_zip:
  assumes "length scores = length tokens"
  shows "chars (zip tokens scores) = length (concat tokens)"
  using assms
  by (induction scores tokens rule: list_induct2) (simp_all add: chars_def)

lemma length_concat_sum: "length (concat ws) = sum_list (map length ws)"
  by (induction ws) simp_all

text \<open>
  Claim C5.  Whenever \<open>get_pred_probs\<close> returns a matrix for a sentence, the matrix has as
  many rows as the sentence has words; and when every row of the input sums to one (all rows
  of the same length \<open>K\<close>), every row of the output sums to one (and has length \<open>K\<close>).  It does
  return a matrix when there is a probability row for every subword, no word is empty and the
  subwords have at least as many characters as the words.  Sums are exact: the arithmetic is
  rational.
\<close>

theorem get_pred_probs_rows:
  "(get_pred_probs scores tokens given_words = Inr pred_probs \<longrightarrow>
      length pred_probs = length given_words \<and>
      ((\<forall>r\<in>set scores. sum_list r = 1 \<and> length r = K) \<longrightarrow>
       (\<forall>r\<in>set pred_probs. sum_list r = 1 \<and> length r = K))) \<and>
   (length scores = length tokens \<and> (\<forall>w\<in>set given_words. w \<noteq> []) \<and>
      length (concat given_words) \<le> length (concat tokens) \<longrightarrow>
    (\<exists>rows. get_pred_probs scores tokens given_words = Inr rows))"
proof (intro conjI impI)
  assume r: "get_pred_probs scores tokens given_words = Inr pred_probs"
  then have w: "walk Uniform given_words (zip tokens scores) 0 = Inr pred_probs"
    by (simp add: get_pred_probs_def get_pred_probs_policy_def)
  from walk_Uniform_rows [OF w] show "length pred_probs = length given_words"
    by simp
  assume s: "\<forall>r\<in>set scores. sum_list r = 1 \<and> length r = K"
  then have "\<forall>(t, p)\<in>set (zip tokens scores). sum_list p = 1 \<and> length p = K"
    by (auto dest: set_zip_rightD)
  with walk_Uniform_rows [OF w, of K] show "\<forall>r\<in>set pred_probs. sum_list r = 1 \<and> length r = K"
    by blast
next
  assume a: "length scores = length tokens \<and> (\<forall>w\<in>set given_words. w \<noteq> []) \<and>
      length (concat given_words) \<le> length (concat tokens)"
  then have "sum_list (map length given_words) + 0 \<le> chars (zip tokens scores)"
    by (simp add: chars_zip length_concat_sum)
  from walk_Uniform_total [OF this] a
  show "\<exists>rows. get_pred_probs scores tokens given_words = Inr rows"
    by (simp add: get_pred_probs_def get_pred_probs_policy_def)
qed


theorem get_pred_probs_rows_witness:
  "get_pred_probs [[1, 0], [0, 1], [1 / 2, 1 / 2]] [''(M'', ''IT'', '')''] [''('', ''MIT'', '')''] =
     Inr [[1, 0], [1 / 2, 1 / 2], [1 / 2, 1 / 2]] \<and>
   length [[1, 0], [1 / 2, 1 / 2], [1 / 2, 1 / 2 :: rat]] = length [''('', ''MIT'', '')''] \<and>
   (\<exists>rows. get_pred_probs [[1, 0], [0, 1], [1 / 2, 1 / 2]] [''(M'', ''IT'', '')'']
              [''('', ''MIT'', '')''] = Inr rows)"
proof -
  let ?S = "[[1, 0], [0, 1], [1 / 2, 1 / 2]] :: row list"
  let ?T = "[''(M'', ''IT'', '')'']"
  let ?W = "[''('', ''MIT'', '')'']"
  let ?R = "[[1, 0], [1 / 2, 1 / 2], [1 / 2, 1 / 2]] :: row list"
  have h: "get_pred_probs ?S ?T ?W = Inr ?R"
    by code_simp
  have pre: "length ?S = length ?T \<and> (\<forall>w\<in>set ?W. w \<noteq> []) \<and>
      length (concat ?W) \<le> length (concat ?T)"
    by simp
  note t = get_pred_probs_rows [of ?S ?T ?W ?R 2]
  from t h have "length ?R = length ?W" by blast
  moreover from t pre have "\<exists>rows. get_pred_probs ?S ?T ?W = Inr rows" by blast
  ultimately show ?thesis using h by blast
qed

lemma spans_from_take: "spans_from start (take n xs) = take n (spans_from start xs)"
proof (induction xs arbitrary: start n)
  case Nil
  then show ?case by simp
next
  case (Cons x xs)
  then show ?case by (cases n) simp_all
qed

lemma overlapping_mem:
  assumes "i < length tokens" and "i < length scores" and "overlaps (spans_from 0 tokens ! i) w"
  shows "(tokens ! i, scores ! i) \<in> set (overlapping scores tokens w)"
proof -
  let ?ts = "zip tokens scores"
  let ?z = "zip (spans_from 0 (map fst ?ts)) ?ts"
  from assms(1,2) have i: "i < length ?z" by simp
  have "map fst ?ts = take (min (length tokens) (length scores)) tokens"
    by (simp add: map_fst_zip_take)
  with assms(1,2) have "spans_from 0 (map fst ?ts) ! i = spans_from 0 tokens ! i"
    by (simp add: spans_from_take)
  with assms(1,2) have zi: "?z ! i = (spans_from 0 tokens ! i, (tokens ! i, scores ! i))"
    by simp
  from i have "?z ! i \<in> set ?z" by (rule nth_mem)
  with zi assms(3)
  have "(spans_from 0 tokens ! i, (tokens ! i, scores ! i)) \<in> set (filter (\<lambda>(s, x). overlaps s w) ?z)"
    by simp
  then have "snd (spans_from 0 tokens ! i, (tokens ! i, scores ! i))
      \<in> snd ` set (filter (\<lambda>(s, x). overlaps s w) ?z)"
    by (rule imageI)
  then show ?thesis
    by (simp add: overlapping_def overlapping_from_def)
qed

lemma get_pred_probs_policy_overlapping:
  assumes "\<forall>t\<in>set tokens. t \<noteq> []" and "\<forall>w\<in>set given_words. w \<noteq> []"
    and "get_pred_probs_policy pol scores tokens given_words = Inr pred_probs"
    and "k < length given_words"
  shows "average pol (overlapping scores tokens (spans_from 0 given_words ! k)) = Inr (pred_probs ! k)"
proof -
  from assms(1) have ne: "\<forall>(t, p)\<in>set (zip tokens scores). t \<noteq> []"
    by (auto dest: set_zip_leftD)
  then have hd: "zip tokens scores \<noteq> [] \<longrightarrow> 0 < length (fst (hd (zip tokens scores)))"
    by (cases "zip tokens scores") auto
  from assms(3) have w: "walk pol given_words (zip tokens scores) 0 = Inr pred_probs"
    by (simp add: get_pred_probs_policy_def)
  from walk_overlapping [OF ne assms(2) hd w, of 0] assms(4) show ?thesis
    by (simp add: overlapping_def)
qed

text \<open>
  Claim C6.  With no empty subword and no empty word, the output row of word \<open>k\<close> is the sum
  of the rows of the subwords whose span overlaps the span of the word, divided by their
  number: every subword that overlaps the word, also one that reaches over the boundary into
  a neighbouring word, is among them and enters with its whole row, in this word and in the
  neighbour alike.  For the subwords \<open>(M\<close>, \<open>IT\<close>, \<open>)\<close> over the words \<open>(\<close>, \<open>MIT\<close>, \<open>)\<close> with rows
  \<open>v1\<close>, \<open>v2\<close>, \<open>v3\<close> the output is \<open>v1\<close>, the mean of \<open>v1\<close> and \<open>v2\<close>, and \<open>v3\<close>.
\<close>

theorem boundary_subword_full_vector:
  assumes "\<forall>t\<in>set tokens. t \<noteq> []" and "\<forall>w\<in>set given_words. w \<noteq> []"
    and "get_pred_probs scores tokens given_words = Inr pred_probs"
    and "k < length given_words"
  shows "(let cs = overlapping scores tokens (spans_from 0 given_words ! k)
          in cs \<noteq> [] \<and>
             pred_probs ! k = map (\<lambda>x. x / of_nat (length cs)) (vsum (map snd cs)) \<and>
             (\<forall>i. i < length tokens \<and> i < length scores \<and>
                  overlaps (spans_from 0 tokens ! i) (spans_from 0 given_words ! k) \<longrightarrow>
                  (tokens ! i, scores ! i) \<in> set cs)) \<and>
         get_pred_probs [v1, v2, v3] [''(M'', ''IT'', '')''] [''('', ''MIT'', '')''] =
           Inr [v1, map (\<lambda>x. x / 2) (map2 (+) v1 v2), v3]"
proof -
  define cs where "cs = overlapping scores tokens (spans_from 0 given_words ! k)"
  from assms(3) have "get_pred_probs_policy Uniform scores tokens given_words = Inr pred_probs"
    by (simp add: get_pred_probs_def)
  from get_pred_probs_policy_overlapping [OF assms(1,2) this assms(4)]
  have "average Uniform cs = Inr (pred_probs ! k)"
    by (simp add: cs_def)
  from average_Uniform_Inr [OF this]
  have a: "cs \<noteq> []" "pred_probs ! k = map (\<lambda>x. x / of_nat (length cs)) (vsum (map snd cs))"
    by simp_all
  have b: "\<forall>i. i < length tokens \<and> i < length scores \<and>
                  overlaps (spans_from 0 tokens ! i) (spans_from 0 given_words ! k) \<longrightarrow>
                  (tokens ! i, scores ! i) \<in> set cs"
    unfolding cs_def by (blast intro: overlapping_mem)
  have c: "get_pred_probs [v1, v2, v3] [''(M'', ''IT'', '')''] [''('', ''MIT'', '')''] =
           Inr [v1, map (\<lambda>x. x / 2) (map2 (+) v1 v2), v3]"
    by (simp add: get_pred_probs_def get_pred_probs_policy_def average_def scale_def vadd_def)
  from a b c show ?thesis
    unfolding Let_def cs_def by blast
qed


theorem boundary_subword_full_vector_witness:
  "get_pred_probs [[1, 0], [0, 1], [1 / 2, 1 / 2]] [''(M'', ''IT'', '')''] [''('', ''MIT'', '')''] =
     Inr [[1, 0], [1 / 2, 1 / 2], [1 / 2, 1 / 2]] \<and>
   overlapping [[1, 0], [0, 1], [1 / 2, 1 / 2]] [''(M'', ''IT'', '')'']
       (spans_from 0 [''('', ''MIT'', '')''] ! 1) = [(''(M'', [1, 0]), (''IT'', [0, 1])] \<and>
   [[1, 0], [1 / 2, 1 / 2], [1 / 2, 1 / 2]] ! 1 =
     map (\<lambda>x. x / of_nat (length [(''(M'', [1, 0 :: rat]), (''IT'', [0, 1])]))
         (vsum (map snd [(''(M'', [1, 0]), (''IT'', [0, 1])]))"
proof -
  let ?S = "[[1, 0], [0, 1], [1 / 2, 1 / 2]] :: row list"
  let ?T = "[''(M'', ''IT'', '')'']"
  let ?W = "[''('', ''MIT'', '')'']"
  let ?R = "[[1, 0], [1 / 2, 1 / 2], [1 / 2, 1 / 2]] :: row list"
  have h1: "\<forall>t\<in>set ?T. t \<noteq> []" by simp
  have h2: "\<forall>w\<in>set ?W. w \<noteq> []" by simp
  have h3: "get_pred_probs ?S ?T ?W = Inr ?R" by code_simp
  have h4: "1 < length ?W" by simp
  have o: "overlapping ?S ?T (spans_from 0 ?W ! 1) = [(''(M'', [1, 0]), (''IT'', [0, 1])]"
    by code_simp
  from boundary_subword_full_vector [OF h1 h2 h3 h4]
  have "?R ! 1 = map (\<lambda>x. x / of_nat (length (overlapping ?S ?T (spans_from 0 ?W ! 1))))
                   (vsum (map snd (overlapping ?S ?T (spans_from 0 ?W ! 1))))"
    unfolding Let_def by blast
  then have "?R ! 1 = map (\<lambda>x. x / of_nat (length [(''(M'', [1, 0 :: rat]), (''IT'', [0, 1])]))
         (vsum (map snd [(''(M'', [1, 0]), (''IT'', [0, 1])]))"
    by (simp only: o)
  with h3 o show ?thesis by blast
qed

text \<open>
  Claim C7.  Entry \<open>c\<close> of the default output row of a word is the sum of the entries \<open>c\<close> of
  the rows of all contributing subwords, those whose span overlaps the word's, divided by
  their number: the unweighted elementwise mean.  For \<open>lamb\<close> split into \<open>la\<close> and \<open>mb\<close> with
  rows \<open>v1\<close> and \<open>v2\<close> it is \<open>(v1 + v2) / 2\<close>.  \<open>get_pred_probs\<close> is the policy \<open>Uniform\<close>; the
  length-weighted mean is what the policy \<open>LengthWeighted\<close> computes when it is named, and it
  differs: for \<open>lamb\<close> split into \<open>l\<close> and \<open>amb\<close> with rows \<open>(1, 0)\<close> and \<open>(0, 1)\<close> the default
  gives \<open>(1/2, 1/2)\<close> and the length-weighted policy \<open>(1/4, 3/4)\<close>.
\<close>

theorem get_pred_probs_unweighted_mean:
  assumes "\<forall>t\<in>set tokens. t \<noteq> []" and "\<forall>w\<in>set given_words. w \<noteq> []"
    and "\<forall>r\<in>set scores. length r = K"
    and "get_pred_probs scores tokens given_words = Inr pred_probs"
    and "k < length given_words" and "c < K"
  shows "(let cs = overlapping scores tokens (spans_from 0 given_words ! k)
          in pred_probs ! k ! c = sum_list (map (\<lambda>(t, p). p ! c) cs) / of_nat (length cs)) \<and>
         get_pred_probs [v1, v2] [''la'', ''mb''] [''lamb''] = Inr [map (\<lambda>x. x / 2) (map2 (+) v1 v2)] \<and>
         get_pred_probs scores tokens given_words =
           get_pred_probs_policy Uniform scores tokens given_words \<and>
         get_pred_probs [[1, 0], [0, 1]] [''l'', ''amb''] [''lamb''] = Inr [[1 / 2, 1 / 2]] \<and>
         get_pred_probs_policy LengthWeighted [[1, 0], [0, 1]] [''l'', ''amb''] [''lamb''] =
           Inr [[1 / 4, 3 / 4]]"
proof -
  define cs where "cs = overlapping scores tokens (spans_from 0 given_words ! k)"
  from assms(4) have "get_pred_probs_policy Uniform scores tokens given_words = Inr pred_probs"
    by (simp add: get_pred_probs_def)
  from get_pred_probs_policy_overlapping [OF assms(1,2) this assms(5)]
  have "average Uniform cs = Inr (pred_probs ! k)"
    by (simp add: cs_def)
  from average_Uniform_Inr [OF this]
  have ne: "cs \<noteq> []" and r: "pred_probs ! k = map (\<lambda>x. x / of_nat (length cs)) (vsum (map snd cs))"
    by simp_all
  have "snd ` set cs \<subseteq> set scores"
    by (auto simp: cs_def overlapping_def overlapping_from_def dest!: set_zip_rightD)
  with assms(3) have len: "\<forall>p\<in>set (map snd cs). length p = K"
    by auto
  from ne have ne': "map snd cs \<noteq> []" by simp
  from vsum_length [OF ne' len] assms(6) r
  have "pred_probs ! k ! c = vsum (map snd cs) ! c / of_nat (length cs)"
    by simp
  also have "vsum (map snd cs) ! c = sum_list (map (\<lambda>p. p ! c) (map snd cs))"
    using ne' len assms(6) by (rule vsum_nth)
  also have "map (\<lambda>p. p ! c) (map snd cs) = map (\<lambda>(t, p). p ! c) cs"
    by (simp add: case_prod_unfold)
  finally have a: "pred_probs ! k ! c = sum_list (map (\<lambda>(t, p). p ! c) cs) / of_nat (length cs)" .
  have b: "get_pred_probs [v1, v2] [''la'', ''mb''] [''lamb''] = Inr [map (\<lambda>x. x / 2) (map2 (+) v1 v2)]"
    by (simp add: get_pred_probs_def get_pred_probs_policy_def average_def scale_def vadd_def)
  have d: "get_pred_probs [[1, 0], [0, 1]] [''l'', ''amb''] [''lamb''] = Inr [[1 / 2, 1 / 2]]"
    by code_simp
  have e: "get_pred_probs_policy LengthWeighted [[1, 0], [0, 1]] [''l'', ''amb''] [''lamb''] =
           Inr [[1 / 4, 3 / 4]]"
    by code_simp
  from a b d e show ?thesis
    unfolding Let_def cs_def get_pred_probs_def by blast
qed

theorem get_pred_probs_unweighted_mean_witness:
  "get_pred_probs [[1, 0], [1 / 4, 3 / 4]] [''la'', ''mb''] [''lamb''] = Inr [[5 / 8, 3 / 8]] \<and>
   overlapping [[1, 0], [1 / 4, 3 / 4]] [''la'', ''mb''] (spans_from 0 [''lamb''] ! 0) =
     [(''la'', [1, 0]), (''mb'', [1 / 4, 3 / 4])] \<and>
   [[5 / 8, 3 / 8]] ! 0 ! 1 =
     sum_list (map (\<lambda>(t, p). p ! 1) [(''la'', [1, 0 :: rat]), (''mb'', [1 / 4, 3 / 4])]) /
     of_nat (length [(''la'', [1, 0 :: rat]), (''mb'', [1 / 4, 3 / 4])])"
proof -
  let ?S = "[[1, 0], [1 / 4, 3 / 4]] :: row list"
  let ?T = "[''la'', ''mb'']"
  let ?W = "[''lamb'']"
  let ?R = "[[5 / 8, 3 / 8]] :: row list"
  have h1: "\<forall>t\<in>set ?T. t \<noteq> []" by simp
  have h2: "\<forall>w\<in>set ?W. w \<noteq> []" by simp
  have h3: "\<forall>r\<in>set ?S. length r = 2" by simp
  have h4: "get_pred_probs ?S ?T ?W = Inr ?R" by code_simp
  have h5: "0 < length ?W" by simp
  have h6: "(1 :: nat) < 2" by simp
  have o: "overlapping ?S ?T (spans_from 0 ?W ! 0) = [(''la'', [1, 0]), (''mb'', [1 / 4, 3 / 4])]"
    by code_simp
  from get_pred_probs_unweighted_mean [OF h1 h2 h3 h4 h5 h6]
  have "?R ! 0 ! 1 = sum_list (map (\<lambda>(t, p). p ! 1) (overlapping ?S ?T (spans_from 0 ?W ! 0))) /
          of_nat (length (overlapping ?S ?T (spans_from 0 ?W ! 0)))"
    unfolding Let_def by blast
  then have "?R ! 0 ! 1 =
     sum_list (map (\<lambda>(t, p). p ! 1) [(''la'', [1, 0 :: rat]), (''mb'', [1 / 4, 3 / 4])]) /
     of_nat (length [(''la'', [1, 0 :: rat]), (''mb'', [1 / 4, 3 / 4])])"
    by (simp only: o)
  with h4 o show ?thesis by blast
qed

section \<open>Properties of the k-fold partitioning\<close>

lemma ids_at_in_range:
  assumes "\<forall>i\<in>set indices. i < length image_ids"
  shows "ids_at image_ids indices = Inr (map (\<lambda>i. image_ids ! i) indices)"
  using assms by (simp add: ids_at_def list_all_iff)

lemma split_data_test_images:
  assumes "set train_indices \<subseteq> {..<length (images dat)}"
    and "set test_indices \<subseteq> {..<length (images dat)}"
  shows "\<exists>train test. split_data stem image_id dat train_indices test_indices = Inr (train, test) \<and>
           images test = filter (\<lambda>image. stem image \<notin> (\<lambda>i. stem (images dat ! i)) ` set train_indices)
                           (images dat)"
proof -
  let ?ids = "map stem (images dat)"
  from assms(1) have tr: "ids_at ?ids train_indices = Inr (map (\<lambda>i. ?ids ! i) train_indices)"
    by (intro ids_at_in_range) auto
  from assms(2) have te: "ids_at ?ids test_indices = Inr (map (\<lambda>i. ?ids ! i) test_indices)"
    by (intro ids_at_in_range) auto
  from assms(1) have "map (\<lambda>i. ?ids ! i) train_indices =
           map (\<lambda>i. stem (images dat ! i)) train_indices"
    by (intro map_cong) auto
  then have s: "set (map (\<lambda>i. ?ids ! i) train_indices) =
           (\<lambda>i. stem (images dat ! i)) ` set train_indices"
    by simp
  show ?thesis
    by (simp add: split_data_def Let_def tr te s del: set_map)
qed

text \<open>
  Claim C8.  \<open>KFold\<close> is imported; its folds are taken as they are promised: every index of
  the data set is among the test indices of exactly one fold, and the training indices of a
  fold are the indices that are not its test indices.  When no two images have the same
  file-name number (the notebook takes these numbers for unique image identifiers),
  \<open>split_data\<close> puts an image into the test data of a fold exactly when the index of the image
  is a test index of that fold.  Every image is therefore in the test data of exactly one
  fold: the validation folds are pairwise disjoint and cover the data set, and the fold of
  an image is a function of its index.
\<close>

theorem split_folds_exactly_one_validation_fold:
  assumes "\<forall>i<length (images dat). \<exists>!f. f < length folds \<and> i \<in> set (snd (folds ! f))"
    and "\<forall>f<length folds.
           set (snd (folds ! f)) \<subseteq> {..<length (images dat)} \<and>
           set (fst (folds ! f)) = {..<length (images dat)} - set (snd (folds ! f))"
    and "distinct (map stem (images dat))"
  shows "(\<forall>i<length (images dat). \<forall>f<length folds.
            (\<exists>train test. split_folds stem image_id dat folds ! f = Inr (train, test) \<and>
               images dat ! i \<in> set (images test)) = (i \<in> set (snd (folds ! f)))) \<and>
         (\<forall>i<length (images dat).
            \<exists>!f. f < length folds \<and>
              (\<exists>train test. split_folds stem image_id dat folds ! f = Inr (train, test) \<and>
                 images dat ! i \<in> set (images test)))"
proof -
  let ?n = "length (images dat)"
  have iff: "(\<exists>train test. split_folds stem image_id dat folds ! f = Inr (train, test) \<and>
               images dat ! i \<in> set (images test)) = (i \<in> set (snd (folds ! f)))"
    if i: "i < ?n" and f: "f < length folds" for i f
  proof -
    obtain tr te where fold: "folds ! f = (tr, te)" by (cases "folds ! f")
    from assms(2) f have "set (snd (folds ! f)) \<subseteq> {..<?n} \<and>
        set (fst (folds ! f)) = {..<?n} - set (snd (folds ! f))"
      by blast
    with fold have te: "set te \<subseteq> {..<?n}" and tr: "set tr = {..<?n} - set te"
      by simp_all
    from tr have tr': "set tr \<subseteq> {..<?n}" by auto
    from split_data_test_images [OF tr' te, of stem image_id] obtain train test where
      sd: "split_data stem image_id dat tr te = Inr (train, test)"
      and im: "images test = filter (\<lambda>image. stem image \<notin> (\<lambda>q. stem (images dat ! q)) ` set tr)
                               (images dat)"
      by blast
    have "stem (images dat ! i) \<in> (\<lambda>q. stem (images dat ! q)) ` set tr \<longleftrightarrow> i \<in> set tr"
    proof
      assume "stem (images dat ! i) \<in> (\<lambda>q. stem (images dat ! q)) ` set tr"
      then obtain q where q: "q \<in> set tr" "stem (images dat ! i) = stem (images dat ! q)"
        by auto
      with tr' have "q < ?n" by auto
      with q(2) i assms(3) have "i = q"
        by (auto simp: distinct_conv_nth)
      with q(1) show "i \<in> set tr" by simp
    next
      assume "i \<in> set tr"
      then show "stem (images dat ! i) \<in> (\<lambda>q. stem (images dat ! q)) ` set tr"
        by auto
    qed
    with i tr have "images dat ! i \<in> set (images test) \<longleftrightarrow> i \<in> set te"
      by (auto simp: im)
    with sd f fold show ?thesis
      by (simp add: split_folds_def)
  qed
  have "\<exists>!f. f < length folds \<and>
              (\<exists>train test. split_folds stem image_id dat folds ! f = Inr (train, test) \<and>
                 images dat ! i \<in> set (images test))"
    if i: "i < ?n" for i
  proof -
    from assms(1) i have "\<exists>!f. f < length folds \<and> i \<in> set (snd (folds ! f))"
      by blast
    then obtain f where f: "f < length folds" "i \<in> set (snd (folds ! f))"
      and u: "\<And>g. g < length folds \<Longrightarrow> i \<in> set (snd (folds ! g)) \<Longrightarrow> g = f"
      by blast
    show ?thesis
    proof (rule ex1I [of _ f])
      from f iff [OF i f(1)]
      show "f < length folds \<and>
              (\<exists>train test. split_folds stem image_id dat folds ! f = Inr (train, test) \<and>
                 images dat ! i \<in> set (images test))"
        by simp
    next
      fix g
      assume g: "g < length folds \<and>
              (\<exists>train test. split_folds stem image_id dat folds ! g = Inr (train, test) \<and>
                 images dat ! i \<in> set (images test))"
      with iff [OF i, of g] have "i \<in> set (snd (folds ! g))" by simp
      with g u show "g = f" by blast
    qed
  qed
  with iff show ?thesis by blast
qed

theorem split_folds_exactly_one_validation_fold_witness:
  "split_folds (\<lambda>x :: int. x) (\<lambda>a :: int. a) \<lparr>images = [10, 20, 30], annotations = [10, 30, 30]\<rparr>
       [([1, 2], [0]), ([0, 2], [1]), ([0, 1], [2])] =
     [Inr (\<lparr>images = [20, 30], annotations = [30, 30]\<rparr>, \<lparr>images = [10], annotations = [10]\<rparr>),
      Inr (\<lparr>images = [10, 30], annotations = [10, 30, 30]\<rparr>, \<lparr>images = [20], annotations = []\<rparr>),
      Inr (\<lparr>images = [10, 20], annotations = [10]\<rparr>, \<lparr>images = [30], annotations = [30, 30]\<rparr>)] \<and>
   (\<exists>!f. f < length ([([1, 2], [0]), ([0, 2], [1]), ([0, 1], [2])] :: (nat list \<times> nat list) list) \<and>
      (\<exists>train test.
         split_folds (\<lambda>x :: int. x) (\<lambda>a :: int. a)
           \<lparr>images = [10, 20, 30], annotations = [10, 30, 30]\<rparr>
           [([1, 2], [0]), ([0, 2], [1]), ([0, 1], [2])] ! f = Inr (train, test) \<and>
         images \<lparr>images = [10, 20, 30], annotations = [10, 30, 30 :: int]\<rparr> ! 1 \<in> set (images test)))"
proof -
  let ?dat = "\<lparr>images = [10, 20, 30], annotations = [10, 30, 30]\<rparr> :: (int, int) coco"
  let ?folds = "[([1, 2], [0]), ([0, 2], [1]), ([0, 1], [2])] :: (nat list \<times> nat list) list"
  have h1: "\<forall>i<length (images ?dat). \<exists>!f. f < length ?folds \<and> i \<in> set (snd (?folds ! f))"
  proof (intro allI impI)
    fix i
    assume "i < length (images ?dat)"
    then have "i = 0 \<or> i = 1 \<or> i = 2" by auto
    moreover have "\<exists>!f. f < length ?folds \<and> (0 :: nat) \<in> set (snd (?folds ! f))"
      by (intro ex1I [of _ 0]) (auto simp: less_Suc_eq nth_Cons')
    moreover have "\<exists>!f. f < length ?folds \<and> (1 :: nat) \<in> set (snd (?folds ! f))"
      by (intro ex1I [of _ 1]) (auto simp: less_Suc_eq nth_Cons')
    moreover have "\<exists>!f. f < length ?folds \<and> (2 :: nat) \<in> set (snd (?folds ! f))"
      by (intro ex1I [of _ 2]) (auto simp: less_Suc_eq nth_Cons')
    ultimately show "\<exists>!f. f < length ?folds \<and> i \<in> set (snd (?folds ! f))"
      by blast
  qed
  have h2: "\<forall>f<length ?folds.
           set (snd (?folds ! f)) \<subseteq> {..<length (images ?dat)} \<and>
           set (fst (?folds ! f)) = {..<length (images ?dat)} - set (snd (?folds ! f))"
    by (auto simp: less_Suc_eq nth_Cons')
  have h3: "distinct (map (\<lambda>x. x) (images ?dat))"
    by simp
  have l: "1 < length (images ?dat)" by simp
  note b = split_folds_exactly_one_validation_fold [OF h1 h2 h3, of "\<lambda>a. a",
      THEN conjunct2, rule_format, OF l]
  have d: "split_folds (\<lambda>x. x) (\<lambda>a. a) ?dat ?folds =
     [Inr (\<lparr>images = [20, 30], annotations = [30, 30]\<rparr>, \<lparr>images = [10], annotations = [10]\<rparr>),
      Inr (\<lparr>images = [10, 30], annotations = [10, 30, 30]\<rparr>, \<lparr>images = [20], annotations = []\<rparr>),
      Inr (\<lparr>images = [10, 20], annotations = [10]\<rparr>, \<lparr>images = [30], annotations = [30, 30]\<rparr>)]"
    by code_simp
  show ?thesis using d b by (intro conjI) assumption+
qed

end
